theory Spec2Isabelle
  imports Main
begin

section \<open>Values and ordered maps of the JavaScript runtime\<close>

text \<open>
  Keys and values are the JavaScript values that reach the cache: the strings typed at the
  command line or synthesised by \<open>fetchFromMainMemory\<close>, and the \<open>undefined\<close> and
  \<open>null\<close> that the code itself produces (\<open>Map.get\<close> of a missing key, the initial
  \<open>leastFrequentKey\<close>, the return value of a miss).
\<close>

datatype jsval = Undefined | Null | Str string

text \<open>JavaScript truthiness, as tested by \<open>if (lowerValue)\<close> and \<open>if (leastFrequentKey)\<close>:
  \<open>undefined\<close>, \<open>null\<close> and the empty string are falsy.\<close>

fun truthy :: "jsval \<Rightarrow> bool" where
  "truthy Undefined = False"
| "truthy Null = False"
| "truthy (Str s) = (s \<noteq> [])"

text \<open>String conversion inside a template literal.\<close>

fun to_string :: "jsval \<Rightarrow> string" where
  "to_string Undefined = ''undefined''"
| "to_string Null = ''null''"
| "to_string (Str s) = s"

text \<open>
  A JavaScript \<open>Map\<close> iterates in insertion order, \<open>set\<close> on a key already present keeps
  its position, and \<open>delete\<close> followed by \<open>set\<close> moves the key to the end. It is modelled
  as an association list in iteration order.
\<close>

fun Map_has :: "'k \<Rightarrow> ('k \<times> 'v) list \<Rightarrow> bool" where
  "Map_has k [] = False"
| "Map_has k ((k', v) # m) = (k = k' \<or> Map_has k m)"

fun Map_lookup :: "'k \<Rightarrow> ('k \<times> 'v) list \<Rightarrow> 'v option" where
  "Map_lookup k [] = None"
| "Map_lookup k ((k', v) # m) = (if k = k' then Some v else Map_lookup k m)"

fun Map_set :: "'k \<Rightarrow> 'v \<Rightarrow> ('k \<times> 'v) list \<Rightarrow> ('k \<times> 'v) list" where
  "Map_set k v [] = [(k, v)]"
| "Map_set k v ((k', v') # m) = (if k = k' then (k, v) # m else (k', v') # Map_set k v m)"

fun Map_delete :: "'k \<Rightarrow> ('k \<times> 'v) list \<Rightarrow> ('k \<times> 'v) list" where
  "Map_delete k [] = []"
| "Map_delete k ((k', v) # m) = (if k = k' then m else (k', v) # Map_delete k m)"

text \<open>\<open>this.cache.get(key)\<close>: \<open>undefined\<close> for a missing key.\<close>

definition cache_get :: "jsval \<Rightarrow> (jsval \<times> jsval) list \<Rightarrow> jsval" where
  "cache_get k m = (case Map_lookup k m of None \<Rightarrow> Undefined | Some v \<Rightarrow> v)"

text \<open>\<open>this.accessCount.get(key) || 0\<close>: a missing key and a zero counter both give 0.\<close>

definition count_or_0 :: "jsval \<Rightarrow> (jsval \<times> nat) list \<Rightarrow> nat" where
  "count_or_0 k m = (case Map_lookup k m of None \<Rightarrow> 0 | Some n \<Rightarrow> n)"

text \<open>\<open>this.cache.keys().next().value\<close>: the first key in iteration order, \<open>undefined\<close> for
  an empty map.\<close>

fun first_key :: "(jsval \<times> 'v) list \<Rightarrow> jsval" where
  "first_key [] = Undefined"
| "first_key ((k, v) # m) = k"

section \<open>CacheLevel\<close>

text \<open>
  A \<open>CacheLevel\<close> object. \<open>size_lv\<close> is the field \<open>size\<close> (the capacity, an integer as
  \<open>parseInt\<close> delivers it), \<open>mutex\<close> is true while the level's \<open>Mutex\<close> is held, and
  \<open>lowerCache\<close> is a reference to another level object (its address in the store of
  objects) or \<open>null\<close>.
\<close>

record CacheLevel =
  size_lv :: int
  evictionPolicy :: string
  cache :: "(jsval \<times> jsval) list"
  accessCount :: "(jsval \<times> nat) list"
  mutex :: bool
  lowerCache :: "nat option"

text \<open>The constructor.\<close>

definition new_CacheLevel :: "int \<Rightarrow> string \<Rightarrow> CacheLevel" where
  "new_CacheLevel sz pol =
     \<lparr>size_lv = sz, evictionPolicy = pol, cache = [], accessCount = [],
      mutex = False, lowerCache = None\<rparr>"

text \<open>
  The level objects live in a store, a list indexed by address; the array \<open>cacheLevels\<close>
  and the \<open>lowerCache\<close> fields hold addresses, so two references to one level see the same
  contents.
\<close>

type_synonym store = "CacheLevel list"

datatype error = InvalidPolicy | IndexOutOfRange | TypeError

text \<open>
  The outcome of an asynchronous operation: its promise resolves with a value, rejects
  with an error, or never settles because the operation waits for a mutex that is never
  released. Each outcome carries the store as the operation left it.
\<close>

datatype ('a, 's) outcome = Returned 'a 's | Threw error 's | Blocked 's

text \<open>Awaiting one call after another: the next call starts from the store the previous
  one left, and only if the previous one resolved.\<close>

definition and_then :: "('a, 's) outcome \<Rightarrow> ('s \<Rightarrow> ('b, 's) outcome) \<Rightarrow> ('b, 's) outcome" where
  "and_then r f = (case r of Returned v s \<Rightarrow> f s | Threw e s \<Rightarrow> Threw e s | Blocked s \<Rightarrow> Blocked s)"

fun raised :: "('a, 's) outcome \<Rightarrow> error option" where
  "raised (Returned v s) = None"
| "raised (Threw e s) = Some e"
| "raised (Blocked s) = None"

definition setLowerCache :: "store \<Rightarrow> nat \<Rightarrow> nat option \<Rightarrow> store" where
  "setLowerCache h a lower = h[a := (h ! a)\<lparr>lowerCache := lower\<rparr>]"

text \<open>\<open>mutex.acquire()\<close> on a free mutex, and the \<open>release()\<close> of the \<open>finally\<close> block.\<close>

definition acquire :: "store \<Rightarrow> nat \<Rightarrow> store" where
  "acquire h a = h[a := (h ! a)\<lparr>mutex := True\<rparr>]"

definition release :: "store \<Rightarrow> nat \<Rightarrow> store" where
  "release h a = h[a := (h ! a)\<lparr>mutex := False\<rparr>]"

text \<open>
  The scan of \<open>evict\<close> for LFU: \<open>minFrequency\<close> starts at \<open>Infinity\<close> (here \<open>None\<close>),
  \<open>leastFrequentKey\<close> at \<open>null\<close>, and a key replaces the current one only on a strictly
  smaller counter.
\<close>

fun lfu_scan :: "(jsval \<times> nat) list \<Rightarrow> jsval \<times> nat option \<Rightarrow> jsval \<times> nat option" where
  "lfu_scan [] acc = acc"
| "lfu_scan ((key, freq) # rest) (leastFrequentKey, minFrequency) =
     (if (case minFrequency of None \<Rightarrow> True | Some m \<Rightarrow> freq < m)
      then lfu_scan rest (key, Some freq)
      else lfu_scan rest (leastFrequentKey, minFrequency))"

text \<open>\<open>evict()\<close>: the evicted item (or \<open>null\<close>) and the level afterwards.\<close>

definition evict :: "CacheLevel \<Rightarrow> (jsval \<times> jsval) option \<times> CacheLevel" where
  "evict L =
     (if evictionPolicy L = ''LRU'' then
        let oldestKey = first_key (cache L);
            value = cache_get oldestKey (cache L)
        in (Some (oldestKey, value), L\<lparr>cache := Map_delete oldestKey (cache L)\<rparr>)
      else if evictionPolicy L = ''LFU'' then
        let leastFrequentKey = fst (lfu_scan (accessCount L) (Null, None))
        in if truthy leastFrequentKey then
             (Some (leastFrequentKey, cache_get leastFrequentKey (cache L)),
              L\<lparr>cache := Map_delete leastFrequentKey (cache L),
                accessCount := Map_delete leastFrequentKey (accessCount L)\<rparr>)
           else (None, L)
      else (None, L))"

text \<open>The tail of \<open>put\<close>: \<open>cache.set\<close>, the LFU counter, and the \<open>finally\<close> block.\<close>

definition store_entry :: "CacheLevel \<Rightarrow> jsval \<Rightarrow> jsval \<Rightarrow> CacheLevel" where
  "store_entry L key value =
     (let L1 = L\<lparr>cache := Map_set key value (cache L)\<rparr>
      in if evictionPolicy L1 = ''LFU''
         then L1\<lparr>accessCount := Map_set key (count_or_0 key (accessCount L1)) (accessCount L1)\<rparr>
         else L1)"

definition put_finish :: "store \<Rightarrow> nat \<Rightarrow> jsval \<Rightarrow> jsval \<Rightarrow> (jsval, store) outcome" where
  "put_finish h a key value = Returned Undefined (release (h[a := store_entry (h ! a) key value]) a)"

definition unlocked_count :: "store \<Rightarrow> nat" where
  "unlocked_count h = length (filter (\<lambda>L. \<not> mutex L) h)"

text \<open>
  \<open>CacheLevel.put\<close> of the level at address \<open>a\<close>. Waiting for a held mutex never ends
  within one operation: whoever holds it is this operation itself or an operation that is
  blocked. The level keeps its own mutex while the \<open>put\<close> of its lower level runs.
  An address outside the store cannot arise from the program; calling a method of a
  non-object is a \<open>TypeError\<close>.
\<close>

function CacheLevel_put :: "store \<Rightarrow> nat \<Rightarrow> jsval \<Rightarrow> jsval \<Rightarrow> (jsval, store) outcome" where
  "CacheLevel_put h a key value =
     (if length h \<le> a then Threw TypeError h
      else if mutex (h ! a) then Blocked h
      else
        let h1 = acquire h a in
        if size_lv (h1 ! a) \<le> int (length (cache (h1 ! a))) then
          let h2 = h1[a := snd (evict (h1 ! a))] in
          (case fst (evict (h1 ! a)) of
             None \<Rightarrow> put_finish h2 a key value
           | Some evictedItem \<Rightarrow>
              (case lowerCache (h2 ! a) of
                 None \<Rightarrow> put_finish h2 a key value
               | Some b \<Rightarrow>
                  (case CacheLevel_put h2 b (fst evictedItem) (snd evictedItem) of
                     Returned r h3 \<Rightarrow> put_finish h3 a key value
                   | Threw e h3 \<Rightarrow> Threw e (release h3 a)
                   | Blocked h3 \<Rightarrow> Blocked h3)))
        else put_finish h1 a key value)"
  by pat_completeness auto

lemma mutex_evict: "mutex (snd (evict L)) = mutex L"
  by (simp add: evict_def Let_def)

lemma unlocked_count_lock:
  "a < length h \<Longrightarrow> \<not> mutex (h ! a) \<Longrightarrow> mutex L \<Longrightarrow> unlocked_count (h[a := L]) < unlocked_count h"
proof (induction h arbitrary: a)
  case Nil
  then show ?case by simp
next
  case (Cons x xs)
  show ?case
  proof (cases a)
    case 0
    with Cons.prems show ?thesis by (simp add: unlocked_count_def)
  next
    case (Suc n)
    with Cons.prems have "unlocked_count (xs[n := L]) < unlocked_count xs"
      using Cons.IH [of n] by simp
    with Suc show ?thesis by (simp add: unlocked_count_def)
  qed
qed

termination CacheLevel_put
  by (relation "measure (\<lambda>(h, a, key, val). unlocked_count h)")
     (simp_all add: acquire_def mutex_evict unlocked_count_lock)

declare CacheLevel_put.simps [simp del]


text \<open>The body of \<open>get\<close> on a hit: the recency or frequency bookkeeping of this level.\<close>

definition touch :: "CacheLevel \<Rightarrow> jsval \<Rightarrow> CacheLevel" where
  "touch L key =
     (let val = cache_get key (cache L)
      in if evictionPolicy L = ''LRU'' then
           L\<lparr>cache := Map_set key val (Map_delete key (cache L))\<rparr>
         else if evictionPolicy L = ''LFU'' then
           L\<lparr>accessCount := Map_set key (count_or_0 key (accessCount L) + 1) (accessCount L)\<rparr>
         else L)"

text \<open>
  \<open>CacheLevel.get\<close> of the level at address \<open>a\<close>. On a miss the level asks its lower
  level while it holds its own mutex, and on a truthy answer calls its own \<open>put\<close>, still
  holding that mutex.
\<close>

function CacheLevel_get :: "store \<Rightarrow> nat \<Rightarrow> jsval \<Rightarrow> (jsval, store) outcome" where
  "CacheLevel_get h a key =
     (if length h \<le> a then Threw TypeError h
      else if mutex (h ! a) then Blocked h
      else
        let h1 = acquire h a in
        if \<not> Map_has key (cache (h1 ! a)) then
          (case lowerCache (h1 ! a) of
             None \<Rightarrow> Returned Null (release h1 a)
           | Some b \<Rightarrow>
              (case CacheLevel_get h1 b key of
                 Returned lowerValue h2 \<Rightarrow>
                   if truthy lowerValue then
                     (case CacheLevel_put h2 a key lowerValue of
                        Returned r h3 \<Rightarrow> Returned lowerValue (release h3 a)
                      | Threw e h3 \<Rightarrow> Threw e (release h3 a)
                      | Blocked h3 \<Rightarrow> Blocked h3)
                   else Returned Null (release h2 a)
               | Threw e h2 \<Rightarrow> Threw e (release h2 a)
               | Blocked h2 \<Rightarrow> Blocked h2))
        else
          Returned (cache_get key (cache (h1 ! a))) (release (h1[a := touch (h1 ! a) key]) a))"
  by pat_completeness auto

termination CacheLevel_get
  by (relation "measure (\<lambda>(h, a, key). unlocked_count h)")
     (simp_all add: acquire_def unlocked_count_lock)

declare CacheLevel_get.simps [simp del]

section \<open>MultiLevelCache\<close>

text \<open>The chain object: the store of level objects and the array \<open>cacheLevels\<close> of
  references into it.\<close>

record MultiLevelCache =
  objects :: store
  cacheLevels :: "nat list"

definition new_MultiLevelCache :: MultiLevelCache where
  "new_MultiLevelCache = \<lparr>objects = [], cacheLevels = []\<rparr>"

definition with_objects :: "MultiLevelCache \<Rightarrow> ('a, store) outcome \<Rightarrow> ('a, MultiLevelCache) outcome" where
  "with_objects st r =
     (case r of
        Returned v h \<Rightarrow> Returned v (st\<lparr>objects := h\<rparr>)
      | Threw e h \<Rightarrow> Threw e (st\<lparr>objects := h\<rparr>)
      | Blocked h \<Rightarrow> Blocked (st\<lparr>objects := h\<rparr>))"

definition addCacheLevel :: "MultiLevelCache \<Rightarrow> int \<Rightarrow> string \<Rightarrow> (jsval, MultiLevelCache) outcome" where
  "addCacheLevel st sz pol =
     (if pol \<noteq> ''LRU'' \<and> pol \<noteq> ''LFU'' then Threw InvalidPolicy st
      else
        let newCacheLevel = length (objects st);
            h1 = objects st @ [new_CacheLevel sz pol];
            h2 = (if length (cacheLevels st) > 0
                  then setLowerCache h1 (cacheLevels st ! (length (cacheLevels st) - 1))
                         (Some newCacheLevel)
                  else h1)
        in Returned Undefined \<lparr>objects = h2, cacheLevels = cacheLevels st @ [newCacheLevel]\<rparr>)"

text \<open>The promotion loop \<open>for (j = i - 1; j >= 0; j--)\<close>; the argument counts the levels
  still to be written, so the next one is \<open>cacheLevels[j]\<close> for \<open>Suc j\<close>.\<close>

fun promote :: "store \<Rightarrow> nat list \<Rightarrow> nat \<Rightarrow> jsval \<Rightarrow> jsval \<Rightarrow> (jsval, store) outcome" where
  "promote h cl 0 key val = Returned Undefined h"
| "promote h cl (Suc j) key val =
     (case CacheLevel_put h (cl ! j) key val of
        Returned r h1 \<Rightarrow> promote h1 cl j key val
      | Threw e h1 \<Rightarrow> Threw e h1
      | Blocked h1 \<Rightarrow> Blocked h1)"

text \<open>The scan loop of \<open>get\<close>; \<open>Returned None\<close> means the loop ran off the end.\<close>

function get_loop :: "store \<Rightarrow> nat list \<Rightarrow> nat \<Rightarrow> jsval \<Rightarrow> (jsval option, store) outcome" where
  "get_loop h cl i key =
     (if i < length cl then
        (case CacheLevel_get h (cl ! i) key of
           Returned val h1 \<Rightarrow>
             if val \<noteq> Null then
               (case promote h1 cl i key val of
                  Returned r h2 \<Rightarrow> Returned (Some val) h2
                | Threw e h2 \<Rightarrow> Threw e h2
                | Blocked h2 \<Rightarrow> Blocked h2)
             else get_loop h1 cl (i + 1) key
         | Threw e h1 \<Rightarrow> Threw e h1
         | Blocked h1 \<Rightarrow> Blocked h1)
      else Returned None h)"
  by pat_completeness auto

termination get_loop
  by (relation "measure (\<lambda>(h, cl, i, key). length cl - i)") auto

declare get_loop.simps [simp del]

text \<open>\<open>put\<close>: \<open>this.cacheLevels[0]\<close> is \<open>undefined\<close> for an empty array, and calling
  \<open>put\<close> on it throws a \<open>TypeError\<close>.\<close>

definition MultiLevelCache_put :: "MultiLevelCache \<Rightarrow> jsval \<Rightarrow> jsval \<Rightarrow> (jsval, MultiLevelCache) outcome" where
  "MultiLevelCache_put st key val =
     (case cacheLevels st of
        [] \<Rightarrow> Threw TypeError st
      | a # rest \<Rightarrow> with_objects st (CacheLevel_put (objects st) a key val))"

definition fetchFromMainMemory :: "MultiLevelCache \<Rightarrow> jsval \<Rightarrow> (jsval, MultiLevelCache) outcome" where
  "fetchFromMainMemory st key =
     (let val = Str (''data for '' @ to_string key)
      in case MultiLevelCache_put st key val of
           Returned r st1 \<Rightarrow> Returned val st1
         | Threw e st1 \<Rightarrow> Threw e st1
         | Blocked st1 \<Rightarrow> Blocked st1)"

definition MultiLevelCache_get :: "MultiLevelCache \<Rightarrow> jsval \<Rightarrow> (jsval, MultiLevelCache) outcome" where
  "MultiLevelCache_get st key =
     (case get_loop (objects st) (cacheLevels st) 0 key of
        Returned (Some val) h \<Rightarrow> Returned val (st\<lparr>objects := h\<rparr>)
      | Returned None h \<Rightarrow> fetchFromMainMemory (st\<lparr>objects := h\<rparr>) key
      | Threw e h \<Rightarrow> Threw e (st\<lparr>objects := h\<rparr>)
      | Blocked h \<Rightarrow> Blocked (st\<lparr>objects := h\<rparr>))"

text \<open>The re-linking loop of \<open>removeCacheLevel\<close>, run on the array after the \<open>splice\<close>.\<close>

function relink :: "store \<Rightarrow> nat list \<Rightarrow> nat \<Rightarrow> store" where
  "relink h cl i =
     (if i < length cl then
        relink (if i < length cl - 1
                then setLowerCache h (cl ! i) (Some (cl ! (i + 1)))
                else setLowerCache h (cl ! i) None) cl (i + 1)
      else h)"
  by pat_completeness auto

termination relink
  by (relation "measure (\<lambda>(h, cl, i). length cl - i)") auto

declare relink.simps [simp del]

text \<open>\<open>splice(level, 1)\<close> for an index inside the array.\<close>

definition splice1 :: "nat list \<Rightarrow> nat \<Rightarrow> nat list" where
  "splice1 cl n = take n cl @ drop (Suc n) cl"

definition removeCacheLevel :: "MultiLevelCache \<Rightarrow> int \<Rightarrow> (jsval, MultiLevelCache) outcome" where
  "removeCacheLevel st level =
     (if level \<ge> 0 \<and> level < int (length (cacheLevels st)) then
        let cl = splice1 (cacheLevels st) (nat level)
        in Returned Undefined \<lparr>objects = relink (objects st) cl (nat level), cacheLevels = cl\<rparr>
      else Threw IndexOutOfRange st)"


text \<open>
  How a method call hands its result to the caller. A plain method returns or throws at
  the call itself. An \<open>async\<close> method always returns a promise at the call; what its
  body returned or threw is how that promise settles, and a body that waits forever leaves
  it pending. \<open>addCacheLevel\<close> is a plain method; \<open>get\<close>, \<open>put\<close> and
  \<open>removeCacheLevel\<close> are declared \<open>async\<close>.
\<close>

datatype ('a, 's) delivery = At_call "('a, 's) outcome" | By_promise "('a, 's) outcome"

fun thrown_at_call :: "('a, 's) delivery \<Rightarrow> error option" where
  "thrown_at_call (At_call r) = raised r"
| "thrown_at_call (By_promise r) = None"

fun rejection :: "('a, 's) delivery \<Rightarrow> error option" where
  "rejection (At_call r) = None"
| "rejection (By_promise r) = raised r"

definition call_addCacheLevel :: "MultiLevelCache \<Rightarrow> int \<Rightarrow> string \<Rightarrow> (jsval, MultiLevelCache) delivery" where
  "call_addCacheLevel st sz pol = At_call (addCacheLevel st sz pol)"

definition call_removeCacheLevel :: "MultiLevelCache \<Rightarrow> int \<Rightarrow> (jsval, MultiLevelCache) delivery" where
  "call_removeCacheLevel st level = By_promise (removeCacheLevel st level)"

definition call_get :: "MultiLevelCache \<Rightarrow> jsval \<Rightarrow> (jsval, MultiLevelCache) delivery" where
  "call_get st key = By_promise (MultiLevelCache_get st key)"

definition call_put :: "MultiLevelCache \<Rightarrow> jsval \<Rightarrow> jsval \<Rightarrow> (jsval, MultiLevelCache) delivery" where
  "call_put st key val = By_promise (MultiLevelCache_put st key val)"

section \<open>Properties of stores\<close>

text \<open>The store an operation leaves behind, whatever its outcome, and whether it settled.\<close>

definition final :: "('a, 's) outcome \<Rightarrow> 's" where
  "final r = (case r of Returned v s \<Rightarrow> s | Threw e s \<Rightarrow> s | Blocked s \<Rightarrow> s)"

definition settled :: "('a, 's) outcome \<Rightarrow> bool" where
  "settled r = (case r of Blocked s \<Rightarrow> False | _ \<Rightarrow> True)"

definition same_static :: "CacheLevel \<Rightarrow> CacheLevel \<Rightarrow> bool" where
  "same_static L L' \<longleftrightarrow> lowerCache L' = lowerCache L \<and> size_lv L' = size_lv L \<and> evictionPolicy L' = evictionPolicy L"

definition frame :: "store \<Rightarrow> store \<Rightarrow> bool" where
  "frame h h' \<longleftrightarrow> length h' = length h \<and>
     (\<forall>i<length h. same_static (h ! i) (h' ! i) \<and> (mutex (h ! i) \<longrightarrow> h' ! i = h ! i))"

definition locks_kept :: "store \<Rightarrow> store \<Rightarrow> bool" where
  "locks_kept h h' \<longleftrightarrow> (\<forall>i<length h. mutex (h' ! i) = mutex (h ! i))"


text \<open>
  Lower references point from an older object to a younger one: \<open>addCacheLevel\<close> links
  the previous bottom level to the object it has just created, and \<open>removeCacheLevel\<close>
  links neighbours of the array, which holds the objects in creation order.
\<close>

definition wf_store :: "store \<Rightarrow> bool" where
  "wf_store h \<longleftrightarrow> (\<forall>i<length h. \<forall>j. lowerCache (h ! i) = Some j \<longrightarrow> i < j \<and> j < length h)"

definition all_free :: "store \<Rightarrow> bool" where
  "all_free h \<longleftrightarrow> (\<forall>i<length h. \<not> mutex (h ! i))"

definition wf_chain :: "MultiLevelCache \<Rightarrow> bool" where
  "wf_chain st \<longleftrightarrow> wf_store (objects st) \<and> sorted_wrt (<) (cacheLevels st) \<and>
     (\<forall>a\<in>set (cacheLevels st). a < length (objects st))"

text \<open>The chain invariant: every level of the array has its successor in the array as
  lower level, and the last one has none.\<close>

definition linked :: "MultiLevelCache \<Rightarrow> bool" where
  "linked st \<longleftrightarrow>
     (\<forall>j<length (cacheLevels st).
        lowerCache (objects st ! (cacheLevels st ! j)) =
          (if j + 1 < length (cacheLevels st) then Some (cacheLevels st ! (j + 1)) else None))"

text \<open>The capacity invariant of one level.\<close>

definition within_capacity :: "CacheLevel \<Rightarrow> bool" where
  "within_capacity L \<longleftrightarrow> int (length (cache L)) \<le> size_lv L"

text \<open>On an LFU level the counters and the store hold the same keys in the same order:
  \<open>put\<close> sets both, \<open>evict\<close> deletes from both, and a hit only changes a counter.\<close>

definition counters_in_step :: "CacheLevel \<Rightarrow> bool" where
  "counters_in_step L \<longleftrightarrow> map fst (accessCount L) = map fst (cache L)"

text \<open>The key is in no level object of the store.\<close>

definition absent :: "jsval \<Rightarrow> store \<Rightarrow> bool" where
  "absent key h \<longleftrightarrow> (\<forall>i<length h. \<not> Map_has key (cache (h ! i)))"

text \<open>The level's own state after the eviction step at the head of \<open>put\<close>.\<close>

definition make_room :: "CacheLevel \<Rightarrow> CacheLevel" where
  "make_room L = (if size_lv L \<le> int (length (cache L)) then snd (evict L) else L)"

section \<open>Locked levels are left alone\<close>

lemma final_simps [simp]:
  "final (Returned v s) = s" "final (Threw e s) = s" "final (Blocked s) = s"
  by (simp_all add: final_def)

lemma settled_simps [simp]:
  "settled (Returned v s)" "settled (Threw e s)" "\<not> settled (Blocked s)"
  by (simp_all add: settled_def)

lemma same_static_refl [simp]: "same_static L L"
  by (simp add: same_static_def)

lemma same_static_evict [simp]: "same_static L (snd (evict L))"
  by (simp add: same_static_def evict_def Let_def)

lemma same_static_store_entry [simp]: "same_static L (store_entry L k v)"
  by (simp add: same_static_def store_entry_def Let_def)

lemma same_static_touch [simp]: "same_static L (touch L k)"
  by (simp add: same_static_def touch_def Let_def)

lemma same_static_mutex [simp]: "same_static L (L\<lparr>mutex := b\<rparr>)"
  by (simp add: same_static_def)

lemma same_static_mutex_upd [simp]: "same_static L (L'\<lparr>mutex := b\<rparr>) = same_static L L'"
  by (simp add: same_static_def)

lemma same_static_trans: "same_static L L' \<Longrightarrow> same_static L' L'' \<Longrightarrow> same_static L L''"
  by (simp add: same_static_def)

lemma frame_refl [simp]: "frame h h"
  by (simp add: frame_def)

lemma frame_trans: "frame h h1 \<Longrightarrow> frame h1 h2 \<Longrightarrow> frame h h2"
  unfolding frame_def by (auto intro: same_static_trans)

lemma frame_update:
  "frame h h' \<Longrightarrow> a < length h \<Longrightarrow> \<not> mutex (h ! a) \<Longrightarrow> same_static (h' ! a) L \<Longrightarrow> frame h (h'[a := L])"
  unfolding frame_def by (auto simp: nth_list_update intro: same_static_trans)

lemma put_frame:
  "frame h (final (CacheLevel_put h a k v)) \<and>
   (settled (CacheLevel_put h a k v) \<longrightarrow> locks_kept h (final (CacheLevel_put h a k v)))"
proof (induction h a k v rule: CacheLevel_put.induct)
  case (1 h a key val)
  show ?case
  proof (cases "length h \<le> a \<or> mutex (h ! a)")
    case True
    then show ?thesis
      by (subst (1 2 3) CacheLevel_put.simps) (auto simp: locks_kept_def)
  next
    case False
    then have a: "a < length h" and free: "\<not> mutex (h ! a)" by auto
    define h1 where "h1 = acquire h a"
    define h2 where "h2 = h1[a := snd (evict (h1 ! a))]"
    have f1: "frame h h1"
      unfolding h1_def acquire_def using a free by (intro frame_update) simp_all
    have f2: "frame h h2"
      unfolding h2_def using f1 a free by (intro frame_update) simp_all
    have len1: "length h1 = length h" and len2: "length h2 = length h"
      using f1 f2 by (simp_all add: frame_def)
    have m2: "mutex (h2 ! a)" "\<forall>i<length h. i \<noteq> a \<longrightarrow> mutex (h2 ! i) = mutex (h ! i)"
      using a by (simp_all add: h2_def h1_def acquire_def mutex_evict)
    have m1: "mutex (h1 ! a)" "\<forall>i<length h. i \<noteq> a \<longrightarrow> mutex (h1 ! i) = mutex (h ! i)"
      using a by (simp_all add: h1_def acquire_def)
    have fin: "frame h (final (put_finish h' a key val)) \<and> locks_kept h (final (put_finish h' a key val))"
      if "frame h h'" "\<forall>i<length h. i \<noteq> a \<longrightarrow> mutex (h' ! i) = mutex (h ! i)" for h'
    proof -
      have "length h' = length h" using that by (simp add: frame_def)
      then show ?thesis
        using that a free
        by (auto simp: put_finish_def release_def locks_kept_def nth_list_update intro!: frame_update)
    qed
    have eq: "CacheLevel_put h a key val =
        (if size_lv (h1 ! a) \<le> int (length (cache (h1 ! a))) then
          (case fst (evict (h1 ! a)) of
             None \<Rightarrow> put_finish h2 a key val
           | Some evictedItem \<Rightarrow>
              (case lowerCache (h2 ! a) of
                 None \<Rightarrow> put_finish h2 a key val
               | Some b \<Rightarrow>
                  (case CacheLevel_put h2 b (fst evictedItem) (snd evictedItem) of
                     Returned r h3 \<Rightarrow> put_finish h3 a key val
                   | Threw e h3 \<Rightarrow> Threw e (release h3 a)
                   | Blocked h3 \<Rightarrow> Blocked h3)))
        else put_finish h1 a key val)"
      unfolding h2_def h1_def using False by (subst CacheLevel_put.simps) (simp add: Let_def)
    show ?thesis
    proof (cases "size_lv (h1 ! a) \<le> int (length (cache (h1 ! a)))")
      case below: False
      then show ?thesis using fin [OF f1 m1(2)] by (simp add: eq put_finish_def)
    next
      case full: True
      show ?thesis
      proof (cases "fst (evict (h1 ! a))")
        case None
        then show ?thesis using full fin [OF f2 m2(2)] by (simp add: eq put_finish_def)
      next
        case (Some item)
        show ?thesis
        proof (cases "lowerCache (h2 ! a)")
          case None
          then show ?thesis using full Some fin [OF f2 m2(2)] by (simp add: eq put_finish_def)
        next
          case lower: (Some b)
          let ?r = "CacheLevel_put h2 b (fst item) (snd item)"
          have IH: "frame h2 (final ?r) \<and> (settled ?r \<longrightarrow> locks_kept h2 (final ?r))"
            using "1.IH" [OF _ _ h1_def full h2_def Some lower] False by simp
          have eq': "CacheLevel_put h a key val =
            (case ?r of Returned r h3 \<Rightarrow> put_finish h3 a key val
                   | Threw e h3 \<Rightarrow> Threw e (release h3 a)
                   | Blocked h3 \<Rightarrow> Blocked h3)"
            using full Some lower by (simp add: eq)
          show ?thesis
          proof (cases ?r)
            case (Returned x h3)
            with IH have "frame h h3" "\<forall>i<length h. i \<noteq> a \<longrightarrow> mutex (h3 ! i) = mutex (h ! i)"
              using f2 m2(2) len2 by (auto intro: frame_trans simp: locks_kept_def)
            from fin [OF this] show ?thesis using Returned by (simp add: eq' put_finish_def)
          next
            case (Threw e h3)
            with IH have f3: "frame h h3" and l3: "\<forall>i<length h. i \<noteq> a \<longrightarrow> mutex (h3 ! i) = mutex (h ! i)"
              using f2 m2(2) len2 by (auto intro: frame_trans simp: locks_kept_def)
            have "length h3 = length h" using f3 by (simp add: frame_def)
            then show ?thesis using Threw f3 l3 a free
              by (auto simp: eq' release_def locks_kept_def nth_list_update intro!: frame_update)
          next
            case (Blocked h3)
            with IH have "frame h h3" using f2 by (auto intro: frame_trans)
            then show ?thesis using Blocked by (simp add: eq')
          qed
        qed
      qed
    qed
  qed
qed


section \<open>A put on free levels completes\<close>

lemma evict_mutex_upd:
  "evict (L\<lparr>mutex := b\<rparr>) = (fst (evict L), (snd (evict L))\<lparr>mutex := b\<rparr>)"
  by (simp add: evict_def Let_def)

lemma store_entry_mutex_upd:
  "store_entry (L\<lparr>mutex := b\<rparr>) k v = (store_entry L k v)\<lparr>mutex := b\<rparr>"
  by (simp add: store_entry_def Let_def)

lemma mutex_store_entry [simp]: "mutex (store_entry L k v) = mutex L"
  by (simp add: store_entry_def Let_def)

lemma mutex_make_room [simp]: "mutex (make_room L) = mutex L"
  by (simp add: make_room_def mutex_evict)

lemma make_room_mutex_upd:
  "make_room (L\<lparr>mutex := b\<rparr>) = (make_room L)\<lparr>mutex := b\<rparr>"
  by (simp add: make_room_def evict_mutex_upd)

lemma mutex_upd_same: "mutex L = b \<Longrightarrow> L\<lparr>mutex := b\<rparr> = L"
  by (cases L) simp

lemma same_static_mutex_upd_left [simp]: "same_static (L\<lparr>mutex := b\<rparr>) L' = same_static L L'"
  by (simp add: same_static_def)

lemma wf_store_frame:
  assumes "frame h h'" and "wf_store h"
  shows "wf_store h'"
  unfolding wf_store_def
proof (intro allI impI)
  fix i j
  assume i: "i < length h'" and low: "lowerCache (h' ! i) = Some j"
  from assms(1) have len: "length h' = length h" by (simp add: frame_def)
  with i assms(1) have "lowerCache (h' ! i) = lowerCache (h ! i)"
    by (simp add: frame_def same_static_def)
  with low have lj: "lowerCache (h ! i) = Some j" by simp
  from i len have "i < length h" by simp
  with assms(2) lj have "i < j \<and> j < length h" unfolding wf_store_def by blast
  with len show "i < j \<and> j < length h'" by simp
qed

lemma put_effect:
  "wf_store h \<Longrightarrow> a < length h \<Longrightarrow> (\<forall>i. a \<le> i \<and> i < length h \<longrightarrow> \<not> mutex (h ! i)) \<Longrightarrow>
   \<exists>h'. CacheLevel_put h a k v = Returned Undefined h' \<and>
        h' ! a = store_entry (make_room (h ! a)) k v"
proof (induction h a k v rule: CacheLevel_put.induct)
  case (1 h a key val)
  note wf = "1.prems"(1) and a = "1.prems"(2) and free = "1.prems"(3)
  from a free have fa: "\<not> mutex (h ! a)" by simp
  define h1 where "h1 = acquire h a"
  define h2 where "h2 = h1[a := snd (evict (h1 ! a))]"
  have h1a: "h1 ! a = (h ! a)\<lparr>mutex := True\<rparr>" using a by (simp add: h1_def acquire_def)
  have h2a: "h2 ! a = (snd (evict (h ! a)))\<lparr>mutex := True\<rparr>"
    using a by (simp add: h2_def h1_def acquire_def evict_mutex_upd)
  have len: "length h1 = length h" "length h2 = length h" by (simp_all add: h1_def h2_def acquire_def)
  have eq: "CacheLevel_put h a key val =
        (if size_lv (h1 ! a) \<le> int (length (cache (h1 ! a))) then
          (case fst (evict (h1 ! a)) of
             None \<Rightarrow> put_finish h2 a key val
           | Some evictedItem \<Rightarrow>
              (case lowerCache (h2 ! a) of
                 None \<Rightarrow> put_finish h2 a key val
               | Some b \<Rightarrow>
                  (case CacheLevel_put h2 b (fst evictedItem) (snd evictedItem) of
                     Returned r h3 \<Rightarrow> put_finish h3 a key val
                   | Threw e h3 \<Rightarrow> Threw e (release h3 a)
                   | Blocked h3 \<Rightarrow> Blocked h3)))
        else put_finish h1 a key val)"
    unfolding h2_def h1_def using a fa by (subst CacheLevel_put.simps) (simp add: Let_def)
  have fin: "\<exists>h'. put_finish h3 a key val = Returned Undefined h' \<and>
        h' ! a = store_entry (L) key val"
    if "length h3 = length h" "h3 ! a = L\<lparr>mutex := True\<rparr>" "\<not> mutex L" for h3 L
    using that a
    by (simp add: put_finish_def release_def store_entry_mutex_upd mutex_upd_same)
  show ?case
  proof (cases "size_lv (h1 ! a) \<le> int (length (cache (h1 ! a)))")
    case below: False
    then have "make_room (h ! a) = h ! a" by (simp add: make_room_def h1a)
    with fin [OF len(1) h1a fa] below show ?thesis by (simp add: eq)
  next
    case full: True
    then have mr: "make_room (h ! a) = snd (evict (h ! a))" by (simp add: make_room_def h1a)
    have fe: "\<not> mutex (snd (evict (h ! a)))" using fa by (simp add: mutex_evict)
    note fin2 = fin [OF len(2) h2a fe, folded mr]
    show ?thesis
    proof (cases "fst (evict (h1 ! a))")
      case None
      with fin2 full show ?thesis by (simp add: eq)
    next
      case (Some item)
      show ?thesis
      proof (cases "lowerCache (h2 ! a)")
        case None
        with fin2 full Some show ?thesis by (simp add: eq)
      next
        case lower: (Some b)
        have f2: "frame h h2"
          unfolding h2_def h1_def acquire_def using a fa
          by (intro frame_update) (simp_all add: evict_mutex_upd)
        have "same_static (h ! a) (h2 ! a)" by (simp add: h2a)
        then have lb: "lowerCache (h ! a) = Some b" using lower by (simp add: same_static_def)
        have b: "a < b" "b < length h" using wf a lb unfolding wf_store_def by blast+
        have other: "\<And>i. i \<noteq> a \<Longrightarrow> h2 ! i = h ! i"
          by (simp add: h2_def h1_def acquire_def)
        have "\<exists>h3. CacheLevel_put h2 b (fst item) (snd item) = Returned Undefined h3 \<and>
             h3 ! b = store_entry (make_room (h2 ! b)) (fst item) (snd item)"
        proof (rule "1.IH" [OF _ _ h1_def full h2_def Some lower])
          show "\<not> length h \<le> a" using a by simp
          show "\<not> mutex (h ! a)" by (rule fa)
          show "wf_store h2" using f2 wf by (rule wf_store_frame)
          show "b < length h2" using b len by simp
          show "\<forall>i. b \<le> i \<and> i < length h2 \<longrightarrow> \<not> mutex (h2 ! i)"
          proof (intro allI impI)
            fix i assume i: "b \<le> i \<and> i < length h2"
            then have "i \<noteq> a" using b by simp
            then have "h2 ! i = h ! i" by (rule other)
            moreover have "\<not> mutex (h ! i)" using free i b len by simp
            ultimately show "\<not> mutex (h2 ! i)" by simp
          qed
        qed
        then obtain h3 where r: "CacheLevel_put h2 b (fst item) (snd item) = Returned Undefined h3"
          by blast
        have "frame h2 h3" using put_frame [of h2 b "fst item" "snd item"] r by simp
        then have l3: "length h3 = length h" and "h3 ! a = h2 ! a"
          using a len by (auto simp: frame_def h2a)
        then have h3a: "h3 ! a = (snd (evict (h ! a)))\<lparr>mutex := True\<rparr>"
          by (simp add: h2a)
        from fin [OF l3 h3a fe] show ?thesis
          using full Some lower r by (simp add: eq mr)
      qed
    qed
  qed
qed


section \<open>What a get leaves alone\<close>

lemma put_on_held_mutex:
  "a < length h \<Longrightarrow> mutex (h ! a) \<Longrightarrow> CacheLevel_put h a k v = Blocked h"
  by (subst CacheLevel_put.simps) simp

lemma release_acquire:
  "a < length h \<Longrightarrow> \<not> mutex (h ! a) \<Longrightarrow> release (acquire h a) a = h"
  by (simp add: release_def acquire_def mutex_upd_same list_update_same_conv)

lemma get_frame:
  "frame h (final (CacheLevel_get h a k)) \<and>
   (settled (CacheLevel_get h a k) \<longrightarrow> locks_kept h (final (CacheLevel_get h a k)))"
proof (induction h a k rule: CacheLevel_get.induct)
  case (1 h a key)
  show ?case
  proof (cases "length h \<le> a \<or> mutex (h ! a)")
    case True
    then show ?thesis
      by (subst (1 2 3) CacheLevel_get.simps) (auto simp: locks_kept_def)
  next
    case False
    then have a: "a < length h" and free: "\<not> mutex (h ! a)" by auto
    define h1 where "h1 = acquire h a"
    have f1: "frame h h1"
      unfolding h1_def acquire_def using a free by (intro frame_update) simp_all
    have len1: "length h1 = length h" using f1 by (simp add: frame_def)
    have m1: "mutex (h1 ! a)" "\<forall>i<length h. i \<noteq> a \<longrightarrow> mutex (h1 ! i) = mutex (h ! i)"
      using a by (simp_all add: h1_def acquire_def)
    have rel: "frame h (release (h'[a := L]) a) \<and> locks_kept h (release (h'[a := L]) a)"
      if "frame h h'" "\<forall>i<length h. i \<noteq> a \<longrightarrow> mutex (h' ! i) = mutex (h ! i)"
        "same_static (h' ! a) L" for h' L
    proof -
      have "length h' = length h" using that by (simp add: frame_def)
      then show ?thesis
        using that a free
        by (auto simp: release_def locks_kept_def nth_list_update intro!: frame_update)
    qed
    have rel': "frame h (release h' a) \<and> locks_kept h (release h' a)"
      if "frame h h'" "\<forall>i<length h. i \<noteq> a \<longrightarrow> mutex (h' ! i) = mutex (h ! i)" for h'
      using rel [OF that, of "h' ! a"] by simp
    have eq: "CacheLevel_get h a key =
        (if \<not> Map_has key (cache (h1 ! a)) then
          (case lowerCache (h1 ! a) of
             None \<Rightarrow> Returned Null (release h1 a)
           | Some b \<Rightarrow>
              (case CacheLevel_get h1 b key of
                 Returned lowerValue h2 \<Rightarrow>
                   if truthy lowerValue then
                     (case CacheLevel_put h2 a key lowerValue of
                        Returned r h3 \<Rightarrow> Returned lowerValue (release h3 a)
                      | Threw e h3 \<Rightarrow> Threw e (release h3 a)
                      | Blocked h3 \<Rightarrow> Blocked h3)
                   else Returned Null (release h2 a)
               | Threw e h2 \<Rightarrow> Threw e (release h2 a)
               | Blocked h2 \<Rightarrow> Blocked h2))
        else
          Returned (cache_get key (cache (h1 ! a))) (release (h1[a := touch (h1 ! a) key]) a))"
      unfolding h1_def using False by (subst CacheLevel_get.simps) (simp add: Let_def)
    show ?thesis
    proof (cases "Map_has key (cache (h1 ! a))")
      case hit: True
      then show ?thesis using rel [OF f1 m1(2), of "touch (h1 ! a) key"] by (simp add: eq)
    next
      case miss: False
      show ?thesis
      proof (cases "lowerCache (h1 ! a)")
        case None
        then show ?thesis using miss rel' [OF f1 m1(2)] by (simp add: eq)
      next
        case lower: (Some b)
        let ?r = "CacheLevel_get h1 b key"
        have IH: "frame h1 (final ?r) \<and> (settled ?r \<longrightarrow> locks_kept h1 (final ?r))"
          using "1.IH" [OF _ _ h1_def _ lower] False miss by simp
        have eq': "CacheLevel_get h a key =
              (case ?r of
                 Returned lowerValue h2 \<Rightarrow>
                   if truthy lowerValue then
                     (case CacheLevel_put h2 a key lowerValue of
                        Returned r h3 \<Rightarrow> Returned lowerValue (release h3 a)
                      | Threw e h3 \<Rightarrow> Threw e (release h3 a)
                      | Blocked h3 \<Rightarrow> Blocked h3)
                   else Returned Null (release h2 a)
               | Threw e h2 \<Rightarrow> Threw e (release h2 a)
               | Blocked h2 \<Rightarrow> Blocked h2)"
          using miss lower by (simp add: eq)
        show ?thesis
        proof (cases ?r)
          case (Returned lowerValue h2)
          with IH have f2: "frame h h2" and l2: "\<forall>i<length h. i \<noteq> a \<longrightarrow> mutex (h2 ! i) = mutex (h ! i)"
            and held: "mutex (h2 ! a)"
            using f1 m1 len1 a by (auto intro: frame_trans simp: locks_kept_def)
          have len2: "length h2 = length h" using f2 by (simp add: frame_def)
          show ?thesis
          proof (cases "truthy lowerValue")
            case True
            have "CacheLevel_put h2 a key lowerValue = Blocked h2"
              using held a len2 by (simp add: put_on_held_mutex)
            then show ?thesis using Returned True f2 by (simp add: eq')
          next
            case False
            then show ?thesis using Returned rel' [OF f2 l2] by (simp add: eq')
          qed
        next
          case (Threw e h2)
          with IH have f2: "frame h h2" and l2: "\<forall>i<length h. i \<noteq> a \<longrightarrow> mutex (h2 ! i) = mutex (h ! i)"
            using f1 m1 len1 by (auto intro: frame_trans simp: locks_kept_def)
          then show ?thesis using Threw rel' [OF f2 l2] by (simp add: eq')
        next
          case (Blocked h2)
          with IH have "frame h h2" using f1 by (auto intro: frame_trans)
          then show ?thesis using Blocked by (simp add: eq')
        qed
      qed
    qed
  qed
qed


text \<open>The promotion inside \<open>get\<close> calls \<open>put\<close> of the same level while the level's mutex
  is held, so it waits for itself.\<close>

lemma get_promotion_blocks:
  assumes "a < length h" "\<not> mutex (h ! a)" "\<not> Map_has key (cache (h ! a))"
    and "lowerCache (h ! a) = Some b"
    and "CacheLevel_get (acquire h a) b key = Returned v h2" "truthy v"
  shows "CacheLevel_get h a key = Blocked h2"
proof -
  have "frame (acquire h a) h2"
    using get_frame [of "acquire h a" b key] assms(5) by simp
  then have "length h2 = length h" "mutex (h2 ! a)"
    using assms(1) by (auto simp: frame_def acquire_def)
  then have "CacheLevel_put h2 a key v = Blocked h2"
    using assms(1) by (simp add: put_on_held_mutex)
  then show ?thesis
    using assms by (subst CacheLevel_get.simps) (simp add: Let_def acquire_def)
qed

section \<open>The only error of get and put\<close>

lemma put_throws: "CacheLevel_put h a k v = Threw e h' \<Longrightarrow> e = TypeError"
proof (induction h a k v arbitrary: e h' rule: CacheLevel_put.induct)
  case (1 h a key val)
  from "1.prems" show ?case
    by (subst (asm) CacheLevel_put.simps)
       (auto simp: Let_def put_finish_def split: option.splits outcome.splits if_splits
             dest: "1.IH" [OF _ _ refl _ refl])
qed

lemma get_throws: "CacheLevel_get h a k = Threw e h' \<Longrightarrow> e = TypeError"
proof (induction h a k arbitrary: e h' rule: CacheLevel_get.induct)
  case (1 h a key)
  from "1.prems" show ?case
    by (subst (asm) CacheLevel_get.simps)
       (auto simp: Let_def split: option.splits outcome.splits if_splits
             dest: "1.IH" [OF _ _ refl] put_throws)
qed

lemma promote_throws: "promote h cl n k v = Threw e h' \<Longrightarrow> e = TypeError"
  by (induction n arbitrary: h) (auto split: outcome.splits dest: put_throws)

lemma get_loop_throws: "get_loop h cl i k = Threw e h' \<Longrightarrow> e = TypeError"
proof (induction h cl i k rule: get_loop.induct)
  case (1 h cl i key)
  from "1.prems" show ?case
    by (subst (asm) get_loop.simps)
       (auto split: outcome.splits if_splits dest: "1.IH" get_throws promote_throws)
qed

lemma chain_put_throws: "MultiLevelCache_put st k v = Threw e st' \<Longrightarrow> e = TypeError"
  by (auto simp: MultiLevelCache_put_def with_objects_def split: list.splits outcome.splits
      dest: put_throws)

lemma chain_get_throws: "MultiLevelCache_get st k = Threw e st' \<Longrightarrow> e = TypeError"
  by (auto simp: MultiLevelCache_get_def fetchFromMainMemory_def Let_def
      split: outcome.splits option.splits dest: get_loop_throws chain_put_throws)


section \<open>A get that misses\<close>

lemma get_miss_no_lower:
  assumes "a < length h" and "\<not> mutex (h ! a)" and "\<not> Map_has key (cache (h ! a))"
    and "lowerCache (h ! a) = None"
  shows "CacheLevel_get h a key = Returned Null h"
  using assms release_acquire [OF assms(1,2)]
  by (subst CacheLevel_get.simps) (simp add: Let_def acquire_def)

lemma get_miss_falsy:
  assumes "a < length h" and "\<not> mutex (h ! a)" and "\<not> Map_has key (cache (h ! a))"
    and "lowerCache (h ! a) = Some b"
    and "CacheLevel_get (acquire h a) b key = Returned v h2" and "\<not> truthy v"
  shows "CacheLevel_get h a key = Returned Null (release h2 a)"
  using assms by (subst CacheLevel_get.simps) (simp add: Let_def acquire_def)

lemma get_lower_keeps_caller:
  assumes "a < length h" and "\<not> mutex (h ! a)"
    and "CacheLevel_get (acquire h a) b key = Returned v h2"
  shows "release h2 a ! a = h ! a"
proof -
  have "frame (acquire h a) h2"
    using get_frame [of "acquire h a" b key] assms(3) by simp
  then have "length h2 = length h" "h2 ! a = acquire h a ! a"
    using assms(1) by (auto simp: frame_def acquire_def)
  then show ?thesis
    using assms(1,2) by (simp add: release_def acquire_def mutex_upd_same)
qed

lemma cache_acquire: "i < length h \<Longrightarrow> cache (acquire h a ! i) = cache (h ! i)"
  by (cases "a = i") (simp_all add: acquire_def)

lemma length_acquire [simp]: "length (acquire h a) = length h"
  by (simp add: acquire_def)

lemma absent_acquire: "absent key (acquire h a) = absent key h"
  by (simp add: absent_def cache_acquire)

lemma get_absent:
  "wf_store h \<Longrightarrow> a < length h \<Longrightarrow> (\<forall>i. a \<le> i \<and> i < length h \<longrightarrow> \<not> mutex (h ! i)) \<Longrightarrow>
   absent key h \<Longrightarrow> CacheLevel_get h a key = Returned Null h"
proof (induction h a key rule: CacheLevel_get.induct)
  case (1 h a key)
  note wf = "1.prems"(1) and a = "1.prems"(2) and free = "1.prems"(3) and ab = "1.prems"(4)
  from a free have fa: "\<not> mutex (h ! a)" by simp
  from a ab have miss: "\<not> Map_has key (cache (h ! a))" unfolding absent_def by blast
  define h1 where "h1 = acquire h a"
  have h1a: "h1 ! a = (h ! a)\<lparr>mutex := True\<rparr>" using a by (simp add: h1_def acquire_def)
  have len: "length h1 = length h" by (simp add: h1_def acquire_def)
  show ?case
  proof (cases "lowerCache (h ! a)")
    case None
    with a fa miss show ?thesis by (rule get_miss_no_lower)
  next
    case (Some b)
    with wf a have b: "a < b" "b < length h" unfolding wf_store_def by blast+
    have f1: "frame h h1"
      unfolding h1_def acquire_def using a fa by (intro frame_update) simp_all
    have other: "\<And>i. i \<noteq> a \<Longrightarrow> h1 ! i = h ! i"
      by (simp add: h1_def acquire_def)
    have "CacheLevel_get h1 b key = Returned Null h1"
    proof (rule "1.IH" [OF _ _ h1_def])
      show "\<not> length h \<le> a" using a by simp
      show "\<not> mutex (h ! a)" by (rule fa)
      show "\<not> Map_has key (cache (h1 ! a))" using miss by (simp add: h1a)
      show "lowerCache (h1 ! a) = Some b" using Some by (simp add: h1a)
      show "wf_store h1" using f1 wf by (rule wf_store_frame)
      show "b < length h1" using b len by simp
      show "absent key h1" using ab by (simp add: h1_def absent_acquire)
      show "\<forall>i. b \<le> i \<and> i < length h1 \<longrightarrow> \<not> mutex (h1 ! i)"
      proof (intro allI impI)
        fix i assume i: "b \<le> i \<and> i < length h1"
        then have "i \<noteq> a" using b by simp
        then have "h1 ! i = h ! i" by (rule other)
        moreover have "\<not> mutex (h ! i)" using free i b len by simp
        ultimately show "\<not> mutex (h1 ! i)" by simp
      qed
    qed
    then have "CacheLevel_get h a key = Returned Null (release h1 a)"
      using a fa miss Some unfolding h1_def by (intro get_miss_falsy [where v = Null]) simp_all
    then show ?thesis using a fa by (simp add: h1_def release_acquire)
  qed
qed

lemma get_loop_absent:
  "wf_store h \<Longrightarrow> \<forall>a\<in>set cl. a < length h \<Longrightarrow> all_free h \<Longrightarrow> absent key h \<Longrightarrow>
   get_loop h cl i key = Returned None h"
proof (induction h cl i key rule: get_loop.induct)
  case (1 h cl i key)
  show ?case
  proof (cases "i < length cl")
    case True
    then have "cl ! i < length h" using "1.prems"(2) by simp
    then have g: "CacheLevel_get h (cl ! i) key = Returned Null h"
      using "1.prems" by (intro get_absent) (simp_all add: all_free_def)
    have "get_loop h cl (i + 1) key = Returned None h"
      using "1.IH" [OF True g] "1.prems" by simp
    then show ?thesis using True g by (subst get_loop.simps) simp
  next
    case False
    then show ?thesis by (subst get_loop.simps) simp
  qed
qed


section \<open>Chain operations on free levels\<close>

lemma lookup_Map_set [simp]: "Map_lookup k (Map_set k v m) = Some v"
  by (induction m) auto

lemma length_Map_set_pos: "0 < length (Map_set k v m)"
  by (cases m) (auto split: if_splits)

lemma cache_store_entry [simp]: "cache (store_entry L k v) = Map_set k v (cache L)"
  by (simp add: store_entry_def Let_def)

lemma size_lv_store_entry [simp]: "size_lv (store_entry L k v) = size_lv L"
  by (simp add: store_entry_def Let_def)

lemma size_lv_make_room [simp]: "size_lv (make_room L) = size_lv L"
  by (simp add: make_room_def evict_def Let_def)

lemma all_free_kept: "all_free h \<Longrightarrow> frame h h' \<Longrightarrow> locks_kept h h' \<Longrightarrow> all_free h'"
  by (simp add: all_free_def frame_def locks_kept_def)

lemma chain_put_outcome:
  assumes "wf_chain st" and "all_free (objects st)"
  shows "(cacheLevels st = [] \<and> MultiLevelCache_put st k v = Threw TypeError st) \<or>
         (cacheLevels st \<noteq> [] \<and>
          (\<exists>h'. MultiLevelCache_put st k v = Returned Undefined (st\<lparr>objects := h'\<rparr>) \<and>
             all_free h' \<and> frame (objects st) h' \<and>
             h' ! hd (cacheLevels st) =
               store_entry (make_room (objects st ! hd (cacheLevels st))) k v))"
proof (cases "cacheLevels st")
  case Nil
  then show ?thesis by (simp add: MultiLevelCache_put_def)
next
  case (Cons a rest)
  with assms(1) have a: "a < length (objects st)" and wf: "wf_store (objects st)"
    by (simp_all add: wf_chain_def)
  have free: "\<forall>i. a \<le> i \<and> i < length (objects st) \<longrightarrow> \<not> mutex (objects st ! i)"
    using assms(2) by (simp add: all_free_def)
  from put_effect [OF wf a free, of k v] obtain h' where
    r: "CacheLevel_put (objects st) a k v = Returned Undefined h'"
    and ha: "h' ! a = store_entry (make_room (objects st ! a)) k v" by blast
  have "frame (objects st) h'" "locks_kept (objects st) h'"
    using put_frame [of "objects st" a k v] r by simp_all
  then show ?thesis
    using Cons r ha assms(2)
    by (auto simp: MultiLevelCache_put_def with_objects_def intro: all_free_kept)
qed

lemma chain_get_absent:
  assumes "wf_chain st" and "all_free (objects st)" and "absent key (objects st)"
  shows "MultiLevelCache_get st key = fetchFromMainMemory st key"
proof -
  have "get_loop (objects st) (cacheLevels st) 0 key = Returned None (objects st)"
    using assms by (intro get_loop_absent) (simp_all add: wf_chain_def)
  then show ?thesis by (simp add: MultiLevelCache_get_def)
qed

lemma get_fallback_nonempty:
  assumes "wf_chain st" and "all_free (objects st)" and "absent key (objects st)"
    and "cacheLevels st \<noteq> []"
  shows "\<exists>h'. MultiLevelCache_get st key =
            Returned (Str (''data for '' @ to_string key)) (st\<lparr>objects := h'\<rparr>) \<and>
          Map_lookup key (cache (h' ! hd (cacheLevels st))) =
            Some (Str (''data for '' @ to_string key))"
proof -
  from chain_put_outcome [OF assms(1,2), of key "Str (''data for '' @ to_string key)"] assms(4)
  obtain h' where "MultiLevelCache_put st key (Str (''data for '' @ to_string key)) =
      Returned Undefined (st\<lparr>objects := h'\<rparr>)"
    and "h' ! hd (cacheLevels st) =
       store_entry (make_room (objects st ! hd (cacheLevels st))) key (Str (''data for '' @ to_string key))"
    by blast
  then show ?thesis
    using chain_get_absent [OF assms(1-3)]
    by (intro exI [of _ h']) (simp add: fetchFromMainMemory_def Let_def)
qed

lemma Map_set_not_Nil [simp]: "Map_set k v m \<noteq> []"
  by (cases m) (auto split: if_splits)

section \<open>What evict removes\<close>

lemma lowerCache_evict [simp]: "lowerCache (snd (evict L)) = lowerCache L"
  by (simp add: evict_def Let_def)

lemma put_unfold:
  assumes "a < length h" and "\<not> mutex (h ! a)"
  shows "CacheLevel_put h a k v =
     (if size_lv (h ! a) \<le> int (length (cache (h ! a))) then
        (case fst (evict (h ! a)) of
           None \<Rightarrow> put_finish (h[a := (snd (evict (h ! a)))\<lparr>mutex := True\<rparr>]) a k v
         | Some item \<Rightarrow>
            (case lowerCache (h ! a) of
               None \<Rightarrow> put_finish (h[a := (snd (evict (h ! a)))\<lparr>mutex := True\<rparr>]) a k v
             | Some b \<Rightarrow>
                (case CacheLevel_put (h[a := (snd (evict (h ! a)))\<lparr>mutex := True\<rparr>]) b
                        (fst item) (snd item) of
                   Returned r h3 \<Rightarrow> put_finish h3 a k v
                 | Threw e h3 \<Rightarrow> Threw e (release h3 a)
                 | Blocked h3 \<Rightarrow> Blocked h3)))
      else put_finish (h[a := (h ! a)\<lparr>mutex := True\<rparr>]) a k v)"
  using assms
  by (subst CacheLevel_put.simps)
     (auto simp: acquire_def Let_def evict_mutex_upd split: option.splits)

lemma put_finish_locked:
  "a < length h \<Longrightarrow> \<not> mutex X \<Longrightarrow>
   put_finish (h[a := X\<lparr>mutex := True\<rparr>]) a k v = Returned Undefined (h[a := store_entry X k v])"
  by (simp add: put_finish_def release_def store_entry_mutex_upd mutex_upd_same)

lemma evict_LRU:
  "evictionPolicy L = ''LRU'' \<Longrightarrow> cache L = (k0, v0) # rest \<Longrightarrow>
   evict L = (Some (k0, v0), L\<lparr>cache := rest\<rparr>)"
  by (simp add: evict_def cache_get_def Let_def)




section \<open>The entry a put forwards\<close>


lemma put_no_forward:
  assumes a: "a < length h" and fa: "\<not> mutex (h ! a)"
    and full: "size_lv (h ! a) \<le> int (length (cache (h ! a)))"
    and none: "fst (evict (h ! a)) = None \<or> lowerCache (h ! a) = None"
  shows "CacheLevel_put h a k v = Returned Undefined (h[a := store_entry (snd (evict (h ! a))) k v])"
proof -
  have "\<not> mutex (snd (evict (h ! a)))" using fa by (simp add: mutex_evict)
  from put_finish_locked [OF a this] full none show ?thesis
    by (auto simp: put_unfold [OF a fa] split: option.splits)
qed

lemma put_below_capacity:
  assumes a: "a < length h" and fa: "\<not> mutex (h ! a)"
    and below: "int (length (cache (h ! a))) < size_lv (h ! a)"
  shows "CacheLevel_put h a k v = Returned Undefined (h[a := store_entry (h ! a) k v])"
  using put_finish_locked [OF a fa] below by (simp add: put_unfold [OF a fa])

section \<open>What removeCacheLevel re-links\<close>

lemma setLowerCache_other: "a \<noteq> p \<Longrightarrow> setLowerCache h a l ! p = h ! p"
  by (simp add: setLowerCache_def)

lemma length_setLowerCache [simp]: "length (setLowerCache h a l) = length h"
  by (simp add: setLowerCache_def)

lemma relink_untouched:
  "(\<forall>j. i \<le> j \<and> j < length cl \<longrightarrow> cl ! j \<noteq> p) \<Longrightarrow> relink h cl i ! p = h ! p"
proof (induction h cl i rule: relink.induct)
  case (1 h cl i)
  show ?case
  proof (cases "i < length cl")
    case True
    then have ne: "cl ! i \<noteq> p" using "1.prems" by simp
    have "relink (if i < length cl - 1
                then setLowerCache h (cl ! i) (Some (cl ! (i + 1)))
                else setLowerCache h (cl ! i) None) cl (i + 1) ! p =
          (if i < length cl - 1
                then setLowerCache h (cl ! i) (Some (cl ! (i + 1)))
                else setLowerCache h (cl ! i) None) ! p"
      using "1.IH" [OF True] "1.prems" by simp
    then show ?thesis
      using True ne by (subst relink.simps) (simp add: setLowerCache_other)
  next
    case False
    then show ?thesis by (subst relink.simps) simp
  qed
qed

lemma splice1_nth:
  "n < length cl \<Longrightarrow> j < length cl - 1 \<Longrightarrow>
   splice1 cl n ! j = (if j < n then cl ! j else cl ! Suc j)"
  by (auto simp: splice1_def nth_append min_def)

lemma length_splice1: "n < length cl \<Longrightarrow> length (splice1 cl n) = length cl - 1"
  by (simp add: splice1_def)

lemma removeCacheLevel_predecessor:
  assumes wf: "wf_chain st" and lk: "linked st"
    and lv: "1 \<le> level" "level < int (length (cacheLevels st))"
    and r: "removeCacheLevel st level = Returned v st'"
  shows "cacheLevels st' ! (nat level - 1) = cacheLevels st ! (nat level - 1) \<and>
         lowerCache (objects st' ! (cacheLevels st' ! (nat level - 1))) =
           Some (cacheLevels st ! nat level) \<and>
         cacheLevels st ! nat level \<notin> set (cacheLevels st')"
proof -
  let ?cl = "cacheLevels st" and ?n = "nat level"
  let ?cl' = "splice1 ?cl ?n"
  from lv have n: "1 \<le> ?n" "?n < length ?cl" by auto
  from wf have srt: "sorted_wrt (<) ?cl" by (simp add: wf_chain_def)
  then have dist: "distinct ?cl" using strict_sorted_iff by blast
  from r lv have st': "st' = \<lparr>objects = relink (objects st) ?cl' ?n, cacheLevels = ?cl'\<rparr>"
    by (auto simp: removeCacheLevel_def Let_def)
  have len': "length ?cl' = length ?cl - 1" using n by (simp add: length_splice1)
  have pre: "?cl' ! (?n - 1) = ?cl ! (?n - 1)"
    using n by (simp add: splice1_nth)
  have later: "\<forall>j. ?n \<le> j \<and> j < length ?cl' \<longrightarrow> ?cl' ! j \<noteq> ?cl ! (?n - 1)"
  proof (intro allI impI)
    fix j assume j: "?n \<le> j \<and> j < length ?cl'"
    then have "?cl' ! j = ?cl ! Suc j" using n len' by (simp add: splice1_nth)
    moreover have "?cl ! Suc j \<noteq> ?cl ! (?n - 1)"
    proof -
      have "Suc j < length ?cl" "?n - 1 < length ?cl" "Suc j \<noteq> ?n - 1"
        using j len' n by auto
      with dist show ?thesis by (simp add: nth_eq_iff_index_eq)
    qed
    ultimately show "?cl' ! j \<noteq> ?cl ! (?n - 1)" by simp
  qed
  have "objects st' ! (?cl ! (?n - 1)) = objects st ! (?cl ! (?n - 1))"
    using relink_untouched [OF later] by (simp add: st')
  moreover have "lowerCache (objects st ! (?cl ! (?n - 1))) = Some (?cl ! ?n)"
    using lk n unfolding linked_def by (metis (no_types, lifting) Suc_diff_1 Suc_eq_plus1 less_imp_diff_less less_le_trans zero_less_one) 
  moreover have "?cl ! ?n \<notin> set ?cl'"
  proof -
    have "?cl = take ?n ?cl @ ?cl ! ?n # drop (Suc ?n) ?cl"
      using n by (simp add: id_take_nth_drop)
    with dist have "distinct (take ?n ?cl @ ?cl ! ?n # drop (Suc ?n) ?cl)" by simp
    then show ?thesis by (auto simp: splice1_def)
  qed
  ultimately show ?thesis using pre by (simp add: st')
qed


section \<open>Chains built by the program are well formed\<close>

lemma new_chain_ok:
  "wf_chain new_MultiLevelCache \<and> linked new_MultiLevelCache \<and> all_free (objects new_MultiLevelCache)"
  by (simp add: wf_chain_def wf_store_def linked_def all_free_def new_MultiLevelCache_def)

lemma wf_store_setLowerCache:
  assumes "wf_store h" and "a < b" and "b < length h"
  shows "wf_store (setLowerCache h a (Some b))"
  unfolding wf_store_def
proof (intro allI impI)
  fix i j
  assume i: "i < length (setLowerCache h a (Some b))"
    and l: "lowerCache (setLowerCache h a (Some b) ! i) = Some j"
  show "i < j \<and> j < length (setLowerCache h a (Some b))"
  proof (cases "i = a")
    case True
    with i l have "j = b" by (simp add: setLowerCache_def)
    with True assms show ?thesis by simp
  next
    case False
    with l have lj: "lowerCache (h ! i) = Some j" by (simp add: setLowerCache_def)
    from i have "i < length h" by simp
    with assms(1) lj have "i < j \<and> j < length h" unfolding wf_store_def by blast
    then show ?thesis by simp
  qed
qed

lemma wf_store_setLowerCache_None:
  assumes "wf_store h"
  shows "wf_store (setLowerCache h a None)"
  unfolding wf_store_def
proof (intro allI impI)
  fix i j
  assume i: "i < length (setLowerCache h a None)"
    and l: "lowerCache (setLowerCache h a None ! i) = Some j"
  then have "i \<noteq> a" by (auto simp: setLowerCache_def)
  with l have lj: "lowerCache (h ! i) = Some j" by (simp add: setLowerCache_def)
  from i have "i < length h" by simp
  with assms lj have "i < j \<and> j < length h" unfolding wf_store_def by blast
  then show "i < j \<and> j < length (setLowerCache h a None)" by simp
qed

lemma wf_store_append:
  assumes "wf_store h" and "lowerCache L = None"
  shows "wf_store (h @ [L])"
  unfolding wf_store_def
proof (intro allI impI)
  fix i j
  assume i: "i < length (h @ [L])" and l: "lowerCache ((h @ [L]) ! i) = Some j"
  then have "i < length h" using assms(2) by (cases "i = length h") auto
  moreover from this l have "lowerCache (h ! i) = Some j" by (simp add: nth_append)
  ultimately have "i < j \<and> j < length h" using assms(1) unfolding wf_store_def by blast
  then show "i < j \<and> j < length (h @ [L])" by simp
qed

lemma addCacheLevel_wf:
  assumes "wf_chain st" and "addCacheLevel st sz pol = Returned v st'"
  shows "wf_chain st'"
proof -
  let ?n = "length (objects st)" and ?cl = "cacheLevels st"
  let ?h1 = "objects st @ [new_CacheLevel sz pol]"
  from assms(1) have wf: "wf_store (objects st)" and srt: "sorted_wrt (<) ?cl"
    and rng: "\<forall>a\<in>set ?cl. a < ?n" by (simp_all add: wf_chain_def)
  have wf1: "wf_store ?h1" using wf by (rule wf_store_append) (simp add: new_CacheLevel_def)
  have srt': "sorted_wrt (<) (?cl @ [?n])" using srt rng by (simp add: sorted_wrt_append)
  have rng': "\<forall>a\<in>set (?cl @ [?n]). a < Suc ?n" using rng by auto
  show ?thesis
  proof (cases "?cl = []")
    case True
    with assms(2) have "st' = \<lparr>objects = ?h1, cacheLevels = ?cl @ [?n]\<rparr>"
      by (auto simp: addCacheLevel_def Let_def split: if_splits)
    with wf1 srt' rng' show ?thesis by (simp add: wf_chain_def)
  next
    case False
    then have "?cl ! (length ?cl - 1) \<in> set ?cl" by simp
    with rng have lt: "?cl ! (length ?cl - 1) < ?n" by blast
    from False assms(2) have "st' = \<lparr>objects = setLowerCache ?h1 (?cl ! (length ?cl - 1)) (Some ?n),
        cacheLevels = ?cl @ [?n]\<rparr>"
      by (auto simp: addCacheLevel_def Let_def split: if_splits)
    moreover have "wf_store (setLowerCache ?h1 (?cl ! (length ?cl - 1)) (Some ?n))"
      using wf1 lt by (intro wf_store_setLowerCache) simp_all
    ultimately show ?thesis using srt' rng' by (simp add: wf_chain_def)
  qed
qed

lemma relink_wf:
  "wf_store h \<Longrightarrow> sorted_wrt (<) cl \<Longrightarrow> \<forall>a\<in>set cl. a < length h \<Longrightarrow>
   wf_store (relink h cl i) \<and> length (relink h cl i) = length h"
proof (induction h cl i rule: relink.induct)
  case (1 h cl i)
  show ?case
  proof (cases "i < length cl")
    case True
    let ?h' = "if i < length cl - 1
                then setLowerCache h (cl ! i) (Some (cl ! (i + 1)))
                else setLowerCache h (cl ! i) None"
    have "wf_store ?h'"
    proof (cases "i < length cl - 1")
      case True
      then have "cl ! i < cl ! (i + 1)" "cl ! (i + 1) < length h"
        using "1.prems"(2,3) by (simp_all add: sorted_wrt_iff_nth_less)
      with "1.prems"(1) True show ?thesis by (simp add: wf_store_setLowerCache)
    next
      case False
      with "1.prems"(1) show ?thesis by (simp add: wf_store_setLowerCache_None)
    qed
    moreover have "length ?h' = length h" by simp
    ultimately have "wf_store (relink ?h' cl (i + 1)) \<and> length (relink ?h' cl (i + 1)) = length h"
      using "1.IH" [OF True] "1.prems" by simp
    then show ?thesis using True by (subst (1 2) relink.simps) simp
  next
    case False
    with "1.prems" show ?thesis by (subst (1 2) relink.simps) simp
  qed
qed

lemma removeCacheLevel_wf:
  assumes "wf_chain st" and "removeCacheLevel st level = Returned v st'"
  shows "wf_chain st'"
proof -
  let ?cl = "cacheLevels st" and ?n = "nat level"
  let ?cl' = "splice1 ?cl ?n"
  from assms(1) have wf: "wf_store (objects st)" and srt: "sorted_wrt (<) ?cl"
    and rng: "\<forall>a\<in>set ?cl. a < length (objects st)" by (simp_all add: wf_chain_def)
  from assms(2) have st': "st' = \<lparr>objects = relink (objects st) ?cl' ?n, cacheLevels = ?cl'\<rparr>"
    by (auto simp: removeCacheLevel_def Let_def split: if_splits)
  have sub: "set ?cl' \<subseteq> set ?cl"
    by (auto simp: splice1_def dest: in_set_takeD in_set_dropD)
  have srt': "sorted_wrt (<) ?cl'"
  proof -
    have "sorted_wrt (<) (take ?n ?cl @ drop ?n ?cl)" using srt by simp
    then have "\<forall>x\<in>set (take ?n ?cl). \<forall>y\<in>set (drop ?n ?cl). x < y"
      unfolding sorted_wrt_append by blast
    moreover have "set (drop (Suc ?n) ?cl) \<subseteq> set (drop ?n ?cl)"
      by (rule set_drop_subset_set_drop) simp
    ultimately have "\<forall>x\<in>set (take ?n ?cl). \<forall>y\<in>set (drop (Suc ?n) ?cl). x < y"
      by blast
    then show ?thesis
      using srt by (simp add: splice1_def sorted_wrt_append sorted_wrt_take sorted_wrt_drop)
  qed
  have rng': "\<forall>a\<in>set ?cl'. a < length (objects st)" using sub rng by blast
  from relink_wf [OF wf srt' rng', of ?n] rng' srt' show ?thesis
    by (simp add: st' wf_chain_def)
qed


section \<open>What chain operations leave alone\<close>

lemma locks_kept_trans:
  "locks_kept h h1 \<Longrightarrow> locks_kept h1 h2 \<Longrightarrow> length h1 = length h \<Longrightarrow> locks_kept h h2"
  by (simp add: locks_kept_def)

lemma frame_length: "frame h h' \<Longrightarrow> length h' = length h"
  by (simp add: frame_def)

lemma promote_frame:
  "frame h (final (promote h cl n k v)) \<and>
   (settled (promote h cl n k v) \<longrightarrow> locks_kept h (final (promote h cl n k v)))"
proof (induction n arbitrary: h)
  case 0
  show ?case by (simp add: locks_kept_def)
next
  case (Suc j)
  let ?r = "CacheLevel_put h (cl ! j) k v"
  have f: "frame h (final ?r)" and l: "settled ?r \<longrightarrow> locks_kept h (final ?r)"
    using put_frame [of h "cl ! j" k v] by simp_all
  show ?case
  proof (cases ?r)
    case (Returned x h1)
    with f l have f1: "frame h h1" and l1: "locks_kept h h1" by simp_all
    from Suc.IH [of h1] f1 l1 Returned show ?thesis
      by (auto intro: frame_trans locks_kept_trans dest: frame_length)
  next
    case (Threw e h1)
    with f l show ?thesis by simp
  next
    case (Blocked h1)
    with f show ?thesis by simp
  qed
qed

lemma get_loop_frame:
  "frame h (final (get_loop h cl i k)) \<and>
   (settled (get_loop h cl i k) \<longrightarrow> locks_kept h (final (get_loop h cl i k)))"
proof (induction h cl i k rule: get_loop.induct)
  case (1 h cl i key)
  show ?case
  proof (cases "i < length cl")
    case False
    then show ?thesis by (subst (1 2 3) get_loop.simps) (simp add: locks_kept_def)
  next
    case True
    let ?r = "CacheLevel_get h (cl ! i) key"
    have f: "frame h (final ?r)" and l: "settled ?r \<longrightarrow> locks_kept h (final ?r)"
      using get_frame [of h "cl ! i" key] by simp_all
    show ?thesis
    proof (cases ?r)
      case (Returned val h1)
      with f l have f1: "frame h h1" and l1: "locks_kept h h1" by simp_all
      show ?thesis
      proof (cases "val = Null")
        case True
        have eq: "get_loop h cl i key = get_loop h1 cl (i + 1) key"
          using \<open>i < length cl\<close> Returned True by (subst get_loop.simps) simp
        from "1.IH" [OF \<open>i < length cl\<close> Returned] True f1 l1 show ?thesis
          unfolding eq by (auto intro: frame_trans locks_kept_trans dest: frame_length)
      next
        case False
        have eq: "get_loop h cl i key =
            (case promote h1 cl i key val of
                  Returned r h2 \<Rightarrow> Returned (Some val) h2
                | Threw e h2 \<Rightarrow> Threw e h2
                | Blocked h2 \<Rightarrow> Blocked h2)"
          using \<open>i < length cl\<close> Returned False by (subst get_loop.simps) simp
        from promote_frame [of h1 cl i key val] f1 l1 show ?thesis
          unfolding eq
          by (cases "promote h1 cl i key val")
             (auto intro: frame_trans locks_kept_trans dest: frame_length)
      qed
    next
      case (Threw e h1)
      with f l True show ?thesis by (subst (1 2 3) get_loop.simps) simp
    next
      case (Blocked h1)
      with f True show ?thesis by (subst (1 2 3) get_loop.simps) simp
    qed
  qed
qed

lemma chain_put_frame:
  "frame (objects st) (objects (final (MultiLevelCache_put st k v))) \<and>
   cacheLevels (final (MultiLevelCache_put st k v)) = cacheLevels st \<and>
   (settled (MultiLevelCache_put st k v) \<longrightarrow>
      locks_kept (objects st) (objects (final (MultiLevelCache_put st k v))))"
proof (cases "cacheLevels st")
  case Nil
  then show ?thesis by (simp add: MultiLevelCache_put_def locks_kept_def)
next
  case (Cons a rest)
  with put_frame [of "objects st" a k v] show ?thesis
    by (cases "CacheLevel_put (objects st) a k v")
       (simp_all add: MultiLevelCache_put_def with_objects_def)
qed

lemma chain_get_frame:
  "frame (objects st) (objects (final (MultiLevelCache_get st k))) \<and>
   cacheLevels (final (MultiLevelCache_get st k)) = cacheLevels st \<and>
   (settled (MultiLevelCache_get st k) \<longrightarrow>
      locks_kept (objects st) (objects (final (MultiLevelCache_get st k))))"
proof (cases "get_loop (objects st) (cacheLevels st) 0 k")
  case (Returned r h)
  with get_loop_frame [of "objects st" "cacheLevels st" 0 k]
  have f: "frame (objects st) h" and l: "locks_kept (objects st) h" by simp_all
  show ?thesis
  proof (cases r)
    case (Some val)
    with Returned f l show ?thesis by (simp add: MultiLevelCache_get_def)
  next
    case None
    let ?st = "st\<lparr>objects := h\<rparr>"
    let ?v = "Str (''data for '' @ to_string k)"
    have eq: "MultiLevelCache_get st k = fetchFromMainMemory ?st k"
      using Returned None by (simp add: MultiLevelCache_get_def)
    from chain_put_frame [of ?st k ?v] f l show ?thesis
      unfolding eq fetchFromMainMemory_def Let_def
      by (cases "MultiLevelCache_put ?st k ?v")
         (auto intro: frame_trans locks_kept_trans dest: frame_length)
  qed
next
  case (Threw e h)
  with get_loop_frame [of "objects st" "cacheLevels st" 0 k] show ?thesis
    by (simp add: MultiLevelCache_get_def)
next
  case (Blocked h)
  with get_loop_frame [of "objects st" "cacheLevels st" 0 k] show ?thesis
    by (simp add: MultiLevelCache_get_def)
qed

lemma wf_chain_frame:
  "wf_chain st \<Longrightarrow> frame (objects st) (objects st') \<Longrightarrow> cacheLevels st' = cacheLevels st \<Longrightarrow>
   wf_chain st'"
  by (simp add: wf_chain_def wf_store_frame frame_length)

lemma chain_put_wf: "wf_chain st \<Longrightarrow> wf_chain (final (MultiLevelCache_put st k v))"
  using chain_put_frame [of st k v] by (blast intro: wf_chain_frame)

lemma chain_get_wf: "wf_chain st \<Longrightarrow> wf_chain (final (MultiLevelCache_get st k))"
  using chain_get_frame [of st k] by (blast intro: wf_chain_frame)

lemma chain_put_free:
  "all_free (objects st) \<Longrightarrow> settled (MultiLevelCache_put st k v) \<Longrightarrow>
   all_free (objects (final (MultiLevelCache_put st k v)))"
  using chain_put_frame [of st k v] by (blast intro: all_free_kept)

lemma chain_get_free:
  "all_free (objects st) \<Longrightarrow> settled (MultiLevelCache_get st k) \<Longrightarrow>
   all_free (objects (final (MultiLevelCache_get st k)))"
  using chain_get_frame [of st k] by (blast intro: all_free_kept)


section \<open>Free mutexes and links under addCacheLevel and removeCacheLevel\<close>

lemma mutex_setLowerCache:
  "i < length h \<Longrightarrow> mutex (setLowerCache h a l ! i) = mutex (h ! i)"
  by (cases "i = a") (simp_all add: setLowerCache_def)

lemma all_free_setLowerCache: "all_free h \<Longrightarrow> all_free (setLowerCache h a l)"
  by (simp add: all_free_def mutex_setLowerCache)

lemma relink_free: "all_free h \<Longrightarrow> all_free (relink h cl i)"
proof (induction h cl i rule: relink.induct)
  case (1 h cl i)
  show ?case
  proof (cases "i < length cl")
    case True
    then show ?thesis
      using "1.IH" [OF True] "1.prems"
      by (subst relink.simps) (simp add: all_free_setLowerCache)
  next
    case False
    with "1.prems" show ?thesis by (subst relink.simps) simp
  qed
qed

lemma removeCacheLevel_free:
  "all_free (objects st) \<Longrightarrow> removeCacheLevel st level = Returned v st' \<Longrightarrow>
   all_free (objects st')"
  by (auto simp: removeCacheLevel_def Let_def relink_free split: if_splits)

lemma all_free_append: "all_free h \<Longrightarrow> \<not> mutex L \<Longrightarrow> all_free (h @ [L])"
  by (auto simp: all_free_def nth_append less_Suc_eq)

lemma addCacheLevel_free:
  "all_free (objects st) \<Longrightarrow> addCacheLevel st sz pol = Returned v st' \<Longrightarrow>
   all_free (objects st')"
  by (auto simp: addCacheLevel_def Let_def new_CacheLevel_def
      intro!: all_free_setLowerCache all_free_append split: if_splits)

lemma addCacheLevel_linked:
  assumes wf: "wf_chain st" and lk: "linked st"
    and r: "addCacheLevel st sz pol = Returned v st'"
  shows "linked st'"
proof -
  let ?n = "length (objects st)" and ?cl = "cacheLevels st"
  let ?h1 = "objects st @ [new_CacheLevel sz pol]"
  from wf have rng: "\<forall>a\<in>set ?cl. a < ?n" by (simp add: wf_chain_def)
  show ?thesis
  proof (cases "?cl = []")
    case True
    with r have "st' = \<lparr>objects = ?h1, cacheLevels = [?n]\<rparr>"
      by (auto simp: addCacheLevel_def Let_def split: if_splits)
    then show ?thesis by (simp add: linked_def new_CacheLevel_def)
  next
    case False
    let ?last = "?cl ! (length ?cl - 1)"
    from False r have st': "st' = \<lparr>objects = setLowerCache ?h1 ?last (Some ?n),
        cacheLevels = ?cl @ [?n]\<rparr>"
      by (auto simp: addCacheLevel_def Let_def split: if_splits)
    from wf have "distinct ?cl" using strict_sorted_iff by (auto simp: wf_chain_def)
    have lastlt: "?last < ?n" using False rng by simp
    show ?thesis
      unfolding linked_def
    proof (intro allI impI)
      fix j assume j: "j < length (cacheLevels st')"
      from j have "j < Suc (length ?cl)" by (simp add: st')
      then consider "j = length ?cl" | "j = length ?cl - 1" | "j < length ?cl - 1"
        by linarith
      then show "lowerCache (objects st' ! (cacheLevels st' ! j)) =
          (if j + 1 < length (cacheLevels st') then Some (cacheLevels st' ! (j + 1)) else None)"
      proof cases
        case 1
        then show ?thesis using lastlt
          by (simp add: st' setLowerCache_def new_CacheLevel_def)
      next
        case 2
        then show ?thesis using lastlt False
          by (simp add: st' setLowerCache_def nth_append)
      next
        case 3
        then have jl: "j < length ?cl" "j + 1 < length ?cl" by simp_all
        then have ne: "?cl ! j \<noteq> ?last"
          using \<open>distinct ?cl\<close> 3 by (simp add: nth_eq_iff_index_eq)
        have inr: "?cl ! j < ?n" using rng jl by simp
        have "lowerCache (objects st ! (?cl ! j)) = Some (?cl ! (j + 1))"
          using lk jl unfolding linked_def by simp
        then show ?thesis using jl ne inr
          by (simp add: st' setLowerCache_def nth_append)
      qed
    qed
  qed
qed

lemma linked_frame:
  assumes "wf_chain st" and "linked st" and "frame (objects st) (objects st')"
    and "cacheLevels st' = cacheLevels st"
  shows "linked st'"
  unfolding linked_def
proof (intro allI impI)
  fix j assume j: "j < length (cacheLevels st')"
  then have "cacheLevels st ! j < length (objects st)"
    using assms(1,4) by (simp add: wf_chain_def)
  then have "lowerCache (objects st' ! (cacheLevels st ! j)) =
      lowerCache (objects st ! (cacheLevels st ! j))"
    using assms(3) by (simp add: frame_def same_static_def)
  moreover have "lowerCache (objects st ! (cacheLevels st ! j)) =
      (if j + 1 < length (cacheLevels st) then Some (cacheLevels st ! (j + 1)) else None)"
    using assms(2,4) j unfolding linked_def by simp
  ultimately show "lowerCache (objects st' ! (cacheLevels st' ! j)) =
          (if j + 1 < length (cacheLevels st') then Some (cacheLevels st' ! (j + 1)) else None)"
    using assms(4) by simp
qed


section \<open>The capacity invariant on LRU levels\<close>

lemma length_Map_set_le: "length (Map_set k v m) \<le> Suc (length m)"
  by (induction m) auto

lemma size_lv_evict [simp]: "size_lv (snd (evict L)) = size_lv L"
  by (simp add: evict_def Let_def)

lemma store_entry_within_capacity:
  assumes "0 < size_lv L" and "within_capacity L"
    and "size_lv L \<le> int (length (cache L)) \<longrightarrow>
           length (cache (snd (evict L))) < length (cache L)"
  shows "within_capacity (store_entry (make_room L) k v)"
proof (cases "size_lv L \<le> int (length (cache L))")
  case True
  with assms(3) have "length (cache (snd (evict L))) < length (cache L)" by simp
  moreover have "length (Map_set k v (cache (snd (evict L)))) \<le> Suc (length (cache (snd (evict L))))"
    by (rule length_Map_set_le)
  ultimately have "int (length (Map_set k v (cache (snd (evict L))))) \<le> int (length (cache L))"
    by linarith
  with True assms(2) show ?thesis by (simp add: within_capacity_def make_room_def)
next
  case False
  moreover have "length (Map_set k v (cache L)) \<le> Suc (length (cache L))"
    by (rule length_Map_set_le)
  ultimately show ?thesis by (simp add: within_capacity_def make_room_def)
qed

lemma LRU_evict_shrinks:
  assumes "evictionPolicy L = ''LRU''" and "0 < size_lv L"
    and "size_lv L \<le> int (length (cache L))"
  shows "length (cache (snd (evict L))) < length (cache L)"
proof -
  from assms(2,3) obtain k0 v0 rest where c: "cache L = (k0, v0) # rest"
    by (cases "cache L") auto
  from evict_LRU [OF assms(1) c] c show ?thesis by simp
qed

lemma LRU_put_within_capacity:
  "evictionPolicy L = ''LRU'' \<Longrightarrow> 0 < size_lv L \<Longrightarrow> within_capacity L \<Longrightarrow>
   within_capacity (store_entry (make_room L) k v)"
  by (rule store_entry_within_capacity) (simp_all add: LRU_evict_shrinks)

lemma put_levels:
  "wf_store h \<Longrightarrow> a < length h \<Longrightarrow> (\<forall>i. a \<le> i \<and> i < length h \<longrightarrow> \<not> mutex (h ! i)) \<Longrightarrow>
   CacheLevel_put h a k v = Returned Undefined h' \<Longrightarrow> i < length h \<Longrightarrow>
   h' ! i = h ! i \<or> (\<exists>k' v'. h' ! i = store_entry (make_room (h ! i)) k' v')"
proof (induction h a k v arbitrary: h' rule: CacheLevel_put.induct)
  case (1 h a key val)
  note wf = "1.prems"(1) and a = "1.prems"(2) and free = "1.prems"(3) and r = "1.prems"(4)
    and i = "1.prems"(5)
  from a free have fa: "\<not> mutex (h ! a)" by simp
  from put_effect [OF wf a free, of key val] r
  have ha: "h' ! a = store_entry (make_room (h ! a)) key val" by simp
  show ?case
  proof (cases "i = a")
    case True
    with ha show ?thesis by blast
  next
    case ia: False
    show ?thesis
    proof (cases "size_lv (h ! a) \<le> int (length (cache (h ! a)))")
      case False
      then have "h' = h[a := store_entry (h ! a) key val]"
        using put_below_capacity [OF a fa, of key val] r by simp
      with ia show ?thesis by simp
    next
      case full: True
      show ?thesis
      proof (cases "fst (evict (h ! a)) = None \<or> lowerCache (h ! a) = None")
        case True
        then have "h' = h[a := store_entry (snd (evict (h ! a))) key val]"
          using put_no_forward [OF a fa full, of key val] r by simp
        with ia show ?thesis by simp
      next
        case False
        then obtain item b where item: "fst (evict (h ! a)) = Some item"
          and lower: "lowerCache (h ! a) = Some b" by auto
        define h1 where "h1 = acquire h a"
        define h2 where "h2 = h1[a := snd (evict (h1 ! a))]"
        have h2eq: "h2 = h[a := (snd (evict (h ! a)))\<lparr>mutex := True\<rparr>]"
          using a by (simp add: h2_def h1_def acquire_def evict_mutex_upd)
        have len: "length h2 = length h" by (simp add: h2eq)
        from wf a lower have b: "a < b" "b < length h" unfolding wf_store_def by blast+
        have f2: "frame h h2"
          unfolding h2eq using a fa by (intro frame_update) simp_all
        have other: "\<And>j. j \<noteq> a \<Longrightarrow> h2 ! j = h ! j" by (simp add: h2eq)
        have free2: "\<forall>j. b \<le> j \<and> j < length h2 \<longrightarrow> \<not> mutex (h2 ! j)"
        proof (intro allI impI)
          fix j assume j: "b \<le> j \<and> j < length h2"
          then have "j \<noteq> a" using b by simp
          then have "h2 ! j = h ! j" by (rule other)
          moreover have "\<not> mutex (h ! j)" using free j b len by simp
          ultimately show "\<not> mutex (h2 ! j)" by simp
        qed
        have wf2: "wf_store h2" using f2 wf by (rule wf_store_frame)
        from put_effect [OF wf2 _ free2, of "fst item" "snd item"] b len obtain h3 where
          r3: "CacheLevel_put h2 b (fst item) (snd item) = Returned Undefined h3" by auto
        have "frame h2 h3" using put_frame [of h2 b "fst item" "snd item"] r3 by simp
        then have len3: "length h3 = length h" using len by (simp add: frame_def)
        have "CacheLevel_put h a key val = put_finish h3 a key val"
          using full item lower r3 by (simp add: put_unfold [OF a fa] h2eq)
        with r have "h' = release (h3[a := store_entry (h3 ! a) key val]) a"
          by (simp add: put_finish_def)
        then have hi: "h' ! i = h3 ! i" using ia by (simp add: release_def)
        have "h3 ! i = h2 ! i \<or> (\<exists>k' v'. h3 ! i = store_entry (make_room (h2 ! i)) k' v')"
        proof (rule "1.IH" [OF _ _ h1_def _ h2_def _ _ wf2 _ free2 r3])
          show "\<not> length h \<le> a" using a by simp
          show "\<not> mutex (h ! a)" by (rule fa)
          show "size_lv (h1 ! a) \<le> int (length (cache (h1 ! a)))"
            using full a by (simp add: h1_def acquire_def)
          show "fst (evict (h1 ! a)) = Some item"
            using item a by (simp add: h1_def acquire_def evict_mutex_upd)
          show "lowerCache (h2 ! a) = Some b" using lower a by (simp add: h2eq)
          show "b < length h2" using b len by simp
          show "i < length h2" using i len by simp
        qed
        with hi other [OF ia] show ?thesis by simp
      qed
    qed
  qed
qed

lemma put_keeps_capacity_LRU:
  assumes "wf_store h" and "a < length h" and "all_free h"
    and "\<forall>i<length h. evictionPolicy (h ! i) = ''LRU'' \<and> 0 < size_lv (h ! i) \<and>
                        within_capacity (h ! i)"
  shows "\<exists>h'. CacheLevel_put h a k v = Returned Undefined h' \<and> length h' = length h \<and>
           (\<forall>i<length h. within_capacity (h' ! i))"
proof -
  have free: "\<forall>i. a \<le> i \<and> i < length h \<longrightarrow> \<not> mutex (h ! i)"
    using assms(3) by (simp add: all_free_def)
  from put_effect [OF assms(1,2) free, of k v] obtain h' where
    r: "CacheLevel_put h a k v = Returned Undefined h'" by blast
  have "frame h h'" using put_frame [of h a k v] r by simp
  then have len: "length h' = length h" by (simp add: frame_def)
  have "within_capacity (h' ! i)" if i: "i < length h" for i
  proof -
    from assms(4) i have L: "evictionPolicy (h ! i) = ''LRU''" "0 < size_lv (h ! i)"
      "within_capacity (h ! i)" by simp_all
    from put_levels [OF assms(1,2) free r i] show ?thesis
      using L by (auto intro: LRU_put_within_capacity)
  qed
  with r len show ?thesis by blast
qed


section \<open>No error on a well-formed store\<close>

lemma put_no_throw:
  "wf_store h \<Longrightarrow> a < length h \<Longrightarrow> raised (CacheLevel_put h a k v) = None"
proof (induction h a k v rule: CacheLevel_put.induct)
  case (1 h a key val)
  note wf = "1.prems"(1) and a = "1.prems"(2)
  show ?case
  proof (cases "mutex (h ! a)")
    case True
    with a show ?thesis by (simp add: put_on_held_mutex)
  next
    case fa: False
    define h1 where "h1 = acquire h a"
    define h2 where "h2 = h1[a := snd (evict (h1 ! a))]"
    have h2eq: "h2 = h[a := (snd (evict (h ! a)))\<lparr>mutex := True\<rparr>]"
      using a by (simp add: h2_def h1_def acquire_def evict_mutex_upd)
    have f2: "frame h h2"
      unfolding h2eq using a fa by (intro frame_update) simp_all
    have wf2: "wf_store h2" using f2 wf by (rule wf_store_frame)
    have len: "length h2 = length h" by (simp add: h2eq)
    show ?thesis
    proof (cases "size_lv (h ! a) \<le> int (length (cache (h ! a))) \<and>
        fst (evict (h ! a)) \<noteq> None \<and> lowerCache (h ! a) \<noteq> None")
      case False
      then show ?thesis
        by (auto simp: put_unfold [OF a fa] put_finish_def split: option.splits)
    next
      case True
      then obtain item b where full: "size_lv (h ! a) \<le> int (length (cache (h ! a)))"
        and item: "fst (evict (h ! a)) = Some item" and lower: "lowerCache (h ! a) = Some b"
        by auto
      from wf a lower have b: "b < length h" unfolding wf_store_def by blast
      have "raised (CacheLevel_put h2 b (fst item) (snd item)) = None"
      proof (rule "1.IH" [OF _ _ h1_def _ h2_def _ _ wf2])
        show "\<not> length h \<le> a" using a by simp
        show "\<not> mutex (h ! a)" by (rule fa)
        show "size_lv (h1 ! a) \<le> int (length (cache (h1 ! a)))"
          using full a by (simp add: h1_def acquire_def)
        show "fst (evict (h1 ! a)) = Some item"
          using item a by (simp add: h1_def acquire_def evict_mutex_upd)
        show "lowerCache (h2 ! a) = Some b" using lower a by (simp add: h2eq)
        show "b < length h2" using b len by simp
      qed
      then show ?thesis
        using full item lower
        by (cases "CacheLevel_put h2 b (fst item) (snd item)")
           (simp_all add: put_unfold [OF a fa] h2eq put_finish_def)
    qed
  qed
qed


lemma get_no_throw:
  "wf_store h \<Longrightarrow> a < length h \<Longrightarrow> raised (CacheLevel_get h a k) = None"
proof (induction h a k rule: CacheLevel_get.induct)
  case (1 h a key)
  note wf = "1.prems"(1) and a = "1.prems"(2)
  show ?case
  proof (cases "mutex (h ! a)")
    case True
    with a show ?thesis by (subst CacheLevel_get.simps) simp
  next
    case fa: False
    define h1 where "h1 = acquire h a"
    have f1: "frame h h1"
      unfolding h1_def acquire_def using a fa by (intro frame_update) simp_all
    have wf1: "wf_store h1" using f1 wf by (rule wf_store_frame)
    have len1: "length h1 = length h" by (simp add: h1_def)
    have h1a: "h1 ! a = (h ! a)\<lparr>mutex := True\<rparr>" using a by (simp add: h1_def acquire_def)
    show ?thesis
    proof (cases "\<not> Map_has key (cache (h ! a)) \<and> lowerCache (h ! a) \<noteq> None")
      case False
      then show ?thesis using a fa
        by (subst CacheLevel_get.simps) (auto simp: Let_def acquire_def split: option.splits)
    next
      case True
      then obtain b where miss: "\<not> Map_has key (cache (h ! a))"
        and lower: "lowerCache (h ! a) = Some b" by auto
      from wf a lower have b: "b < length h" unfolding wf_store_def by blast
      let ?r = "CacheLevel_get h1 b key"
      have IH: "raised ?r = None"
      proof (rule "1.IH" [OF _ _ h1_def _ _ wf1])
        show "\<not> length h \<le> a" using a by simp
        show "\<not> mutex (h ! a)" by (rule fa)
        show "\<not> Map_has key (cache (h1 ! a))" using miss by (simp add: h1a)
        show "lowerCache (h1 ! a) = Some b" using lower by (simp add: h1a)
        show "b < length h1" using b len1 by simp
      qed
      have eq: "CacheLevel_get h a key =
              (case ?r of
                 Returned lowerValue h2 \<Rightarrow>
                   if truthy lowerValue then
                     (case CacheLevel_put h2 a key lowerValue of
                        Returned r h3 \<Rightarrow> Returned lowerValue (release h3 a)
                      | Threw e h3 \<Rightarrow> Threw e (release h3 a)
                      | Blocked h3 \<Rightarrow> Blocked h3)
                   else Returned Null (release h2 a)
               | Threw e h2 \<Rightarrow> Threw e (release h2 a)
               | Blocked h2 \<Rightarrow> Blocked h2)"
        unfolding h1_def using a fa miss lower
        by (subst CacheLevel_get.simps) (simp add: Let_def acquire_def)
      show ?thesis
      proof (cases ?r)
        case (Returned lowerValue h2)
        have f12: "frame h1 h2" using get_frame [of h1 b key] Returned by simp
        have "wf_store h2" using f12 wf1 by (rule wf_store_frame)
        moreover have "a < length h2" using frame_length [OF f12] a len1 by simp
        ultimately have "wf_store h2" "a < length h2" by simp_all
        then have "raised (CacheLevel_put h2 a key lowerValue) = None"
          by (rule put_no_throw)
        then show ?thesis using Returned
          by (cases "CacheLevel_put h2 a key lowerValue") (simp_all add: eq)
      next
        case (Threw e h2)
        with IH show ?thesis by simp
      next
        case (Blocked h2)
        then show ?thesis by (simp add: eq)
      qed
    qed
  qed
qed


lemma promote_no_throw:
  "wf_store h \<Longrightarrow> \<forall>a\<in>set cl. a < length h \<Longrightarrow> n \<le> length cl \<Longrightarrow>
   raised (promote h cl n k v) = None"
proof (induction n arbitrary: h)
  case 0
  show ?case by simp
next
  case (Suc j)
  then have a: "cl ! j < length h" by simp
  have nt: "raised (CacheLevel_put h (cl ! j) k v) = None"
    using Suc.prems(1) a by (rule put_no_throw)
  show ?case
  proof (cases "CacheLevel_put h (cl ! j) k v")
    case (Returned x h1)
    have f: "frame h h1" using put_frame [of h "cl ! j" k v] Returned by simp
    have "wf_store h1" using f Suc.prems(1) by (rule wf_store_frame)
    moreover have "\<forall>a\<in>set cl. a < length h1"
      using frame_length [OF f] Suc.prems(2) by simp
    ultimately have "raised (promote h1 cl j k v) = None"
      using Suc.prems(3) by (intro Suc.IH) simp_all
    with Returned show ?thesis by simp
  next
    case (Threw e h1)
    with nt show ?thesis by simp
  next
    case (Blocked h1)
    then show ?thesis by simp
  qed
qed


lemma get_loop_no_throw:
  "wf_store h \<Longrightarrow> \<forall>a\<in>set cl. a < length h \<Longrightarrow> raised (get_loop h cl i k) = None"
proof (induction h cl i k rule: get_loop.induct)
  case (1 h cl i key)
  show ?case
  proof (cases "i < length cl")
    case False
    then show ?thesis by (subst get_loop.simps) simp
  next
    case True
    then have a: "cl ! i < length h" using "1.prems"(2) by simp
    have nt: "raised (CacheLevel_get h (cl ! i) key) = None"
      using "1.prems"(1) a by (rule get_no_throw)
    show ?thesis
    proof (cases "CacheLevel_get h (cl ! i) key")
      case (Returned val h1)
      have f: "frame h h1" using get_frame [of h "cl ! i" key] Returned by simp
      have "wf_store h1" using f "1.prems"(1) by (rule wf_store_frame)
      moreover have "\<forall>a\<in>set cl. a < length h1"
        using frame_length [OF f] "1.prems"(2) by simp
      ultimately have w1: "wf_store h1" "\<forall>a\<in>set cl. a < length h1" by simp_all
      show ?thesis
      proof (cases "val = Null")
        case True
        then have nn: "\<not> val \<noteq> Null" by simp
        from "1.IH" [OF \<open>i < length cl\<close> Returned nn w1] show ?thesis
          using \<open>i < length cl\<close> Returned True by (subst get_loop.simps) simp
      next
        case False
        have "raised (promote h1 cl i key val) = None"
          using w1 \<open>i < length cl\<close> by (intro promote_no_throw) simp_all
        then show ?thesis
          using \<open>i < length cl\<close> Returned False
          by (subst get_loop.simps) (cases "promote h1 cl i key val", simp_all)
      qed
    next
      case (Threw e h1)
      with nt show ?thesis by simp
    next
      case (Blocked h1)
      then show ?thesis using True by (subst get_loop.simps) simp
    qed
  qed
qed


lemma chain_put_no_throw:
  assumes "wf_chain st" and "cacheLevels st \<noteq> []"
  shows "raised (MultiLevelCache_put st k v) = None"
proof -
  from assms obtain a rest where cl: "cacheLevels st = a # rest" by (cases "cacheLevels st") auto
  with assms(1) have "wf_store (objects st)" "a < length (objects st)"
    by (simp_all add: wf_chain_def)
  then have "raised (CacheLevel_put (objects st) a k v) = None" by (rule put_no_throw)
  then show ?thesis using cl
    by (cases "CacheLevel_put (objects st) a k v")
       (simp_all add: MultiLevelCache_put_def with_objects_def)
qed

lemma chain_get_no_throw:
  assumes "wf_chain st" and "cacheLevels st \<noteq> []"
  shows "raised (MultiLevelCache_get st k) = None"
proof -
  from assms(1) have w: "wf_store (objects st)" "\<forall>a\<in>set (cacheLevels st). a < length (objects st)"
    by (simp_all add: wf_chain_def)
  then have nt: "raised (get_loop (objects st) (cacheLevels st) 0 k) = None"
    by (rule get_loop_no_throw)
  show ?thesis
  proof (cases "get_loop (objects st) (cacheLevels st) 0 k")
    case (Returned r h)
    show ?thesis
    proof (cases r)
      case (Some val)
      with Returned show ?thesis by (simp add: MultiLevelCache_get_def)
    next
      case None
      let ?st = "st\<lparr>objects := h\<rparr>"
      have "frame (objects st) h"
        using get_loop_frame [of "objects st" "cacheLevels st" 0 k] Returned by simp
      then have "frame (objects st) (objects ?st)" by simp
      with assms(1) have "wf_chain ?st" by (rule wf_chain_frame) simp
      then have "raised (MultiLevelCache_put ?st k (Str (''data for '' @ to_string k))) = None"
        using assms(2) by (simp add: chain_put_no_throw)
      moreover have "MultiLevelCache_get st k = fetchFromMainMemory ?st k"
        using Returned None by (simp add: MultiLevelCache_get_def)
      ultimately show ?thesis
        unfolding fetchFromMainMemory_def Let_def
        by (cases "MultiLevelCache_put ?st k (Str (''data for '' @ to_string k))") simp_all
    qed
  next
    case (Threw e h)
    with nt show ?thesis by simp
  next
    case (Blocked h)
    then show ?thesis by (simp add: MultiLevelCache_get_def)
  qed
qed



section \<open>An LFU level with truthy keys does evict\<close>

lemma Map_has_iff: "Map_has k m \<longleftrightarrow> k \<in> fst ` set m"
  by (induction m) auto



lemma keys_Map_set:
  "map fst (Map_set k v m) = (if k \<in> set (map fst m) then map fst m else map fst m @ [k])"
  by (induction m) force+

lemma keys_Map_delete: "map fst (Map_delete k m) = remove1 k (map fst m)"
  by (induction m) auto


lemma store_entry_in_step:
  "evictionPolicy L = ''LFU'' \<Longrightarrow> counters_in_step L \<Longrightarrow> counters_in_step (store_entry L k v)"
  by (simp add: counters_in_step_def store_entry_def Let_def keys_Map_set)

lemma evict_in_step:
  "evictionPolicy L = ''LFU'' \<Longrightarrow> counters_in_step L \<Longrightarrow> counters_in_step (snd (evict L))"
  by (simp add: counters_in_step_def evict_def Let_def keys_Map_delete)

lemma touch_in_step:
  "evictionPolicy L = ''LFU'' \<Longrightarrow> counters_in_step L \<Longrightarrow> Map_has k (cache L) \<Longrightarrow>
   counters_in_step (touch L k)"
  by (simp add: counters_in_step_def touch_def Let_def keys_Map_set Map_has_iff)


section \<open>The claims\<close>

subsection \<open>C1: a miss in one level\<close>

text \<open>
  The store of the counterexample is the one the program builds with
  \<open>addCacheLevel 1 LRU; addCacheLevel 1 LFU; put k v; put x y\<close>.
\<close>

lemma two_level_store_reachable:
  "and_then (addCacheLevel new_MultiLevelCache 1 ''LRU'')
     (\<lambda>st. and_then (addCacheLevel st 1 ''LFU'')
       (\<lambda>st. and_then (MultiLevelCache_put st (Str ''k'') (Str ''v''))
         (\<lambda>st. MultiLevelCache_put st (Str ''x'') (Str ''y''))))
   = Returned Undefined
      \<lparr>objects =
        [\<lparr>size_lv = 1, evictionPolicy = ''LRU'', cache = [(Str ''x'', Str ''y'')],
          accessCount = [], mutex = False, lowerCache = Some 1\<rparr>,
         \<lparr>size_lv = 1, evictionPolicy = ''LFU'', cache = [(Str ''k'', Str ''v'')],
          accessCount = [(Str ''k'', 0)], mutex = False, lowerCache = None\<rparr>],
       cacheLevels = [0, 1]\<rparr>"
  by code_simp

text \<open>
  C1 fails on the code: \<open>k\<close> is not in the store of level 0, but \<open>get(k)\<close> on level 0
  does not return \<open>null\<close>. It calls \<open>get\<close> of the lower level, which finds \<open>k\<close> and
  raises its frequency counter from 0 to 1, and then never settles.
\<close>

theorem CacheLevel_get_reaches_lower_counterexample:
  "\<not> Map_has (Str ''k'') [(Str ''x'', Str ''y'')]
   \<and> CacheLevel_get
        [\<lparr>size_lv = 1, evictionPolicy = ''LRU'', cache = [(Str ''x'', Str ''y'')],
          accessCount = [], mutex = False, lowerCache = Some 1\<rparr>,
         \<lparr>size_lv = 1, evictionPolicy = ''LFU'', cache = [(Str ''k'', Str ''v'')],
          accessCount = [(Str ''k'', 0)], mutex = False, lowerCache = None\<rparr>] 0 (Str ''k'')
     = Blocked
        [\<lparr>size_lv = 1, evictionPolicy = ''LRU'', cache = [(Str ''x'', Str ''y'')],
          accessCount = [], mutex = True, lowerCache = Some 1\<rparr>,
         \<lparr>size_lv = 1, evictionPolicy = ''LFU'', cache = [(Str ''k'', Str ''v'')],
          accessCount = [(Str ''k'', 1)], mutex = False, lowerCache = None\<rparr>]"
  by code_simp

text \<open>
  C1 as amended. For a level whose mutex is free and a key that is not in the level's own
  store: a level without a lower level returns \<open>null\<close> and changes nothing; a level with
  a lower level calls that level's \<open>get\<close> while it holds its own mutex, and when the call
  returns \<open>null\<close> or another falsy value the level returns \<open>null\<close>, releases its mutex,
  and its own state is as before. Fallthrough is done by the level itself.
\<close>

theorem CacheLevel_get_miss:
  assumes "a < length h" and "\<not> mutex (h ! a)" and "\<not> Map_has key (cache (h ! a))"
  shows "(lowerCache (h ! a) = None \<longrightarrow> CacheLevel_get h a key = Returned Null h) \<and>
         (\<forall>b v h2. lowerCache (h ! a) = Some b \<and>
             CacheLevel_get (acquire h a) b key = Returned v h2 \<and> \<not> truthy v \<longrightarrow>
             CacheLevel_get h a key = Returned Null (release h2 a) \<and>
             release h2 a ! a = h ! a)"
  using assms
  by (auto intro: get_miss_no_lower get_miss_falsy get_lower_keeps_caller)

text \<open>
  The theorem at two stores: a single level without a lower level, and a level above an
  LFU level that holds the key with the empty string as its value.
\<close>

theorem CacheLevel_get_miss_witness:
  "CacheLevel_get [new_CacheLevel 1 ''LRU''] 0 (Str ''k'')
     = Returned Null [new_CacheLevel 1 ''LRU'']
   \<and> CacheLevel_get
        [\<lparr>size_lv = 1, evictionPolicy = ''LRU'', cache = [(Str ''x'', Str ''y'')],
          accessCount = [], mutex = False, lowerCache = Some 1\<rparr>,
         \<lparr>size_lv = 1, evictionPolicy = ''LFU'', cache = [(Str ''k'', Str '''')],
          accessCount = [(Str ''k'', 0)], mutex = False, lowerCache = None\<rparr>] 0 (Str ''k'')
     = Returned Null
        [\<lparr>size_lv = 1, evictionPolicy = ''LRU'', cache = [(Str ''x'', Str ''y'')],
          accessCount = [], mutex = False, lowerCache = Some 1\<rparr>,
         \<lparr>size_lv = 1, evictionPolicy = ''LFU'', cache = [(Str ''k'', Str '''')],
          accessCount = [(Str ''k'', 1)], mutex = False, lowerCache = None\<rparr>]"
proof -
  let ?g = "[new_CacheLevel 1 ''LRU'']"
  let ?h = "[\<lparr>size_lv = 1, evictionPolicy = ''LRU'', cache = [(Str ''x'', Str ''y'')],
          accessCount = [], mutex = False, lowerCache = Some 1\<rparr>,
         \<lparr>size_lv = 1, evictionPolicy = ''LFU'', cache = [(Str ''k'', Str '''')],
          accessCount = [(Str ''k'', 0)], mutex = False, lowerCache = None\<rparr>]"
  let ?h2 = "[\<lparr>size_lv = 1, evictionPolicy = ''LRU'', cache = [(Str ''x'', Str ''y'')],
          accessCount = [], mutex = True, lowerCache = Some 1\<rparr>,
         \<lparr>size_lv = 1, evictionPolicy = ''LFU'', cache = [(Str ''k'', Str '''')],
          accessCount = [(Str ''k'', 1)], mutex = False, lowerCache = None\<rparr>]"
  have g: "0 < length ?g" "\<not> mutex (?g ! 0)" "\<not> Map_has (Str ''k'') (cache (?g ! 0))"
    "lowerCache (?g ! 0) = None"
    by (simp_all add: new_CacheLevel_def)
  have h: "0 < length ?h" "\<not> mutex (?h ! 0)" "\<not> Map_has (Str ''k'') (cache (?h ! 0))"
    by simp_all
  have low: "lowerCache (?h ! 0) = Some 1 \<and>
      CacheLevel_get (acquire ?h 0) 1 (Str ''k'') = Returned (Str '''') ?h2 \<and>
      \<not> truthy (Str '''')"
    by code_simp
  from CacheLevel_get_miss [OF g(1,2,3)] g(4)
  have one: "CacheLevel_get ?g 0 (Str ''k'') = Returned Null ?g" by blast
  from CacheLevel_get_miss [OF h] low
  have "CacheLevel_get ?h 0 (Str ''k'') = Returned Null (release ?h2 0)" by blast
  then have two: "CacheLevel_get ?h 0 (Str ''k'') = Returned Null
        [\<lparr>size_lv = 1, evictionPolicy = ''LRU'', cache = [(Str ''x'', Str ''y'')],
          accessCount = [], mutex = False, lowerCache = Some 1\<rparr>,
         \<lparr>size_lv = 1, evictionPolicy = ''LFU'', cache = [(Str ''k'', Str '''')],
          accessCount = [(Str ''k'', 1)], mutex = False, lowerCache = None\<rparr>]"
    by (simp add: release_def)
  from one two show ?thesis by simp
qed

subsection \<open>C2: re-linking after a removal\<close>

text \<open>
  C2, evaluated on a chain of three levels of capacity 1. After \<open>removeCacheLevel(1)\<close>
  the array holds the objects 0 and 2, but object 0 still has \<open>lowerCache\<close> = object 1,
  the removed level: the loop starts at the removed index, so it never reaches the
  predecessor. A following \<open>put(a,1); put(b,2)\<close> demotes \<open>a\<close> into the removed level
  (object 1), and level 2 stays empty. The same happens for every removal at an index
  of 1 or more (\<open>removeCacheLevel_predecessor\<close>).
\<close>

theorem removeCacheLevel_keeps_stale_link:
  "and_then (addCacheLevel new_MultiLevelCache 1 ''LRU'')
     (\<lambda>st. and_then (addCacheLevel st 1 ''LRU'')
       (\<lambda>st. and_then (addCacheLevel st 1 ''LRU'')
         (\<lambda>st. removeCacheLevel st 1)))
   = Returned Undefined
      \<lparr>objects =
        [\<lparr>size_lv = 1, evictionPolicy = ''LRU'', cache = [], accessCount = [],
          mutex = False, lowerCache = Some 1\<rparr>,
         \<lparr>size_lv = 1, evictionPolicy = ''LRU'', cache = [], accessCount = [],
          mutex = False, lowerCache = Some 2\<rparr>,
         \<lparr>size_lv = 1, evictionPolicy = ''LRU'', cache = [], accessCount = [],
          mutex = False, lowerCache = None\<rparr>],
       cacheLevels = [0, 2]\<rparr>
   \<and> and_then (addCacheLevel new_MultiLevelCache 1 ''LRU'')
     (\<lambda>st. and_then (addCacheLevel st 1 ''LRU'')
       (\<lambda>st. and_then (addCacheLevel st 1 ''LRU'')
         (\<lambda>st. and_then (removeCacheLevel st 1)
           (\<lambda>st. and_then (MultiLevelCache_put st (Str ''a'') (Str ''1''))
             (\<lambda>st. MultiLevelCache_put st (Str ''b'') (Str ''2''))))))
   = Returned Undefined
      \<lparr>objects =
        [\<lparr>size_lv = 1, evictionPolicy = ''LRU'', cache = [(Str ''b'', Str ''2'')],
          accessCount = [], mutex = False, lowerCache = Some 1\<rparr>,
         \<lparr>size_lv = 1, evictionPolicy = ''LRU'', cache = [(Str ''a'', Str ''1'')],
          accessCount = [], mutex = False, lowerCache = Some 2\<rparr>,
         \<lparr>size_lv = 1, evictionPolicy = ''LRU'', cache = [], accessCount = [],
          mutex = False, lowerCache = None\<rparr>],
       cacheLevels = [0, 2]\<rparr>"
  by code_simp

subsection \<open>C3: mutexes during one chain operation\<close>

text \<open>
  The chain below is the one the program builds with three
  \<open>addCacheLevel 1 LRU\<close> and \<open>put a 1; put b 2; put c 3\<close>.
\<close>

lemma three_level_chain_reachable:
  "and_then (addCacheLevel new_MultiLevelCache 1 ''LRU'')
     (\<lambda>st. and_then (addCacheLevel st 1 ''LRU'')
       (\<lambda>st. and_then (addCacheLevel st 1 ''LRU'')
         (\<lambda>st. and_then (MultiLevelCache_put st (Str ''a'') (Str ''1''))
           (\<lambda>st. and_then (MultiLevelCache_put st (Str ''b'') (Str ''2''))
             (\<lambda>st. MultiLevelCache_put st (Str ''c'') (Str ''3''))))))
   = Returned Undefined
      \<lparr>objects =
        [\<lparr>size_lv = 1, evictionPolicy = ''LRU'', cache = [(Str ''c'', Str ''3'')],
          accessCount = [], mutex = False, lowerCache = Some 1\<rparr>,
         \<lparr>size_lv = 1, evictionPolicy = ''LRU'', cache = [(Str ''b'', Str ''2'')],
          accessCount = [], mutex = False, lowerCache = Some 2\<rparr>,
         \<lparr>size_lv = 1, evictionPolicy = ''LRU'', cache = [(Str ''a'', Str ''1'')],
          accessCount = [], mutex = False, lowerCache = None\<rparr>],
       cacheLevels = [0, 1, 2]\<rparr>"
  by code_simp

text \<open>
  C3, evaluated on that chain: \<open>get(a)\<close>, started with every mutex free, never settles.
  Level 0 holds its mutex while level 1 runs its \<open>get\<close>, level 1 holds its own while
  level 2 answers, and level 1 then calls its own \<open>put\<close> to take the value in, which
  waits for the mutex level 1 itself holds. The mutexes of level 0 and level 1 are both
  held at that point, and stay held.
\<close>

theorem chain_get_self_deadlock:
  "MultiLevelCache_get
      \<lparr>objects =
        [\<lparr>size_lv = 1, evictionPolicy = ''LRU'', cache = [(Str ''c'', Str ''3'')],
          accessCount = [], mutex = False, lowerCache = Some 1\<rparr>,
         \<lparr>size_lv = 1, evictionPolicy = ''LRU'', cache = [(Str ''b'', Str ''2'')],
          accessCount = [], mutex = False, lowerCache = Some 2\<rparr>,
         \<lparr>size_lv = 1, evictionPolicy = ''LRU'', cache = [(Str ''a'', Str ''1'')],
          accessCount = [], mutex = False, lowerCache = None\<rparr>],
       cacheLevels = [0, 1, 2]\<rparr> (Str ''a'')
   = Blocked
      \<lparr>objects =
        [\<lparr>size_lv = 1, evictionPolicy = ''LRU'', cache = [(Str ''c'', Str ''3'')],
          accessCount = [], mutex = True, lowerCache = Some 1\<rparr>,
         \<lparr>size_lv = 1, evictionPolicy = ''LRU'', cache = [(Str ''b'', Str ''2'')],
          accessCount = [], mutex = True, lowerCache = Some 2\<rparr>,
         \<lparr>size_lv = 1, evictionPolicy = ''LRU'', cache = [(Str ''a'', Str ''1'')],
          accessCount = [], mutex = False, lowerCache = None\<rparr>],
       cacheLevels = [0, 1, 2]\<rparr>"
  by code_simp

text \<open>
  The operations that do complete: on a well-formed chain whose mutexes are all free, a
  chain \<open>put\<close> settles and leaves every mutex free, and so does a chain \<open>get\<close> for a
  key that no level object holds. Every \<open>get\<close> that finds the key below the level it
  asked first blocks as above (\<open>get_promotion_blocks\<close>).
\<close>

lemma chain_operations_complete:
  assumes "wf_chain st" and "all_free (objects st)"
  shows "settled (MultiLevelCache_put st key val) \<and>
         all_free (objects (final (MultiLevelCache_put st key val))) \<and>
         (cacheLevels st \<noteq> [] \<longrightarrow> raised (MultiLevelCache_put st key val) = None) \<and>
         (absent key (objects st) \<longrightarrow>
            settled (MultiLevelCache_get st key) \<and>
            all_free (objects (final (MultiLevelCache_get st key))) \<and>
            (cacheLevels st \<noteq> [] \<longrightarrow> raised (MultiLevelCache_get st key) = None))"
proof -
  have put: "settled (MultiLevelCache_put st k v) \<and>
         all_free (objects (final (MultiLevelCache_put st k v))) \<and>
         (cacheLevels st \<noteq> [] \<longrightarrow> raised (MultiLevelCache_put st k v) = None)" for k v
    using chain_put_outcome [OF assms, of k v] assms(2) by auto
  have "settled (fetchFromMainMemory st key) \<and>
        all_free (objects (final (fetchFromMainMemory st key))) \<and>
        (cacheLevels st \<noteq> [] \<longrightarrow> raised (fetchFromMainMemory st key) = None)"
    using put [of key "Str (''data for '' @ to_string key)"]
    by (auto simp: fetchFromMainMemory_def Let_def split: outcome.splits)
  then show ?thesis
    using put [of key val] chain_get_absent [OF assms] by simp
qed

lemma chain_operations_complete_example:
  "wf_chain
     \<lparr>objects =
        [\<lparr>size_lv = 1, evictionPolicy = ''LRU'', cache = [(Str ''a'', Str ''1'')],
          accessCount = [], mutex = False, lowerCache = Some 1\<rparr>,
         \<lparr>size_lv = 1, evictionPolicy = ''LFU'', cache = [],
          accessCount = [], mutex = False, lowerCache = None\<rparr>],
      cacheLevels = [0, 1]\<rparr> \<and>
   all_free
        [\<lparr>size_lv = 1, evictionPolicy = ''LRU'', cache = [(Str ''a'', Str ''1'')],
          accessCount = [], mutex = False, lowerCache = Some 1\<rparr>,
         \<lparr>size_lv = 1, evictionPolicy = ''LFU'', cache = [],
          accessCount = [], mutex = False, lowerCache = None\<rparr>] \<and>
   absent (Str ''z'')
        [\<lparr>size_lv = 1, evictionPolicy = ''LRU'', cache = [(Str ''a'', Str ''1'')],
          accessCount = [], mutex = False, lowerCache = Some 1\<rparr>,
         \<lparr>size_lv = 1, evictionPolicy = ''LFU'', cache = [],
          accessCount = [], mutex = False, lowerCache = None\<rparr>] \<and>
   raised (MultiLevelCache_put
     \<lparr>objects =
        [\<lparr>size_lv = 1, evictionPolicy = ''LRU'', cache = [(Str ''a'', Str ''1'')],
          accessCount = [], mutex = False, lowerCache = Some 1\<rparr>,
         \<lparr>size_lv = 1, evictionPolicy = ''LFU'', cache = [],
          accessCount = [], mutex = False, lowerCache = None\<rparr>],
      cacheLevels = [0, 1]\<rparr> (Str ''b'') (Str ''2'')) = None \<and>
   raised (MultiLevelCache_get
     \<lparr>objects =
        [\<lparr>size_lv = 1, evictionPolicy = ''LRU'', cache = [(Str ''a'', Str ''1'')],
          accessCount = [], mutex = False, lowerCache = Some 1\<rparr>,
         \<lparr>size_lv = 1, evictionPolicy = ''LFU'', cache = [],
          accessCount = [], mutex = False, lowerCache = None\<rparr>],
      cacheLevels = [0, 1]\<rparr> (Str ''z'')) = None"
proof -
  let ?h = "[\<lparr>size_lv = 1, evictionPolicy = ''LRU'', cache = [(Str ''a'', Str ''1'')],
          accessCount = [], mutex = False, lowerCache = Some 1\<rparr>,
         \<lparr>size_lv = 1, evictionPolicy = ''LFU'', cache = [],
          accessCount = [], mutex = False, lowerCache = None\<rparr>]"
  let ?st = "\<lparr>objects = ?h, cacheLevels = [0, 1]\<rparr>"
  have wf: "wf_chain ?st"
    by (simp add: wf_chain_def wf_store_def All_less_Suc)
  have free: "all_free (objects ?st)"
    by (simp add: all_free_def All_less_Suc)
  have ab: "absent (Str ''z'') (objects ?st)"
    by (simp add: absent_def All_less_Suc)
  from chain_operations_complete [OF wf free, of "Str ''b''" "Str ''2''"]
  have p: "raised (MultiLevelCache_put ?st (Str ''b'') (Str ''2'')) = None" by simp
  from chain_operations_complete [OF wf free, of "Str ''z''" "Str ''2''"] ab
  have g: "raised (MultiLevelCache_get ?st (Str ''z'')) = None" by simp
  from wf free ab p g show ?thesis by simp
qed

subsection \<open>C4: what put does with an evicted entry\<close>




subsection \<open>C5: the capacity of a level\<close>

text \<open>
  C5, evaluated on an LFU level of capacity 1 with the empty string as a key:
  after \<open>put('', v); put(a, 1)\<close> the store holds two entries. \<open>evict\<close> finds the key
  \<open>''\<close> with the smallest counter, but tests it with \<open>if (leastFrequentKey)\<close>, and the
  empty string is falsy, so nothing is evicted. On LRU levels of positive capacity the
  invariant does hold after every put (\<open>put_keeps_capacity_LRU\<close>).
\<close>

theorem LFU_empty_key_exceeds_capacity:
  "and_then (CacheLevel_put [new_CacheLevel 1 ''LFU''] 0 (Str '''') (Str ''v''))
     (\<lambda>h. CacheLevel_put h 0 (Str ''a'') (Str ''1''))
   = Returned Undefined
       [\<lparr>size_lv = 1, evictionPolicy = ''LFU'',
         cache = [(Str '''', Str ''v''), (Str ''a'', Str ''1'')],
         accessCount = [(Str '''', 0), (Str ''a'', 0)], mutex = False, lowerCache = None\<rparr>]
   \<and> size_lv (new_CacheLevel 1 ''LFU'') < int (length [(Str '''', Str ''v''), (Str ''a'', Str ''1'')])"
  by code_simp

subsection \<open>C6: get on a chain that misses everywhere\<close>

text \<open>
  C6, evaluated on the chain without levels: the scan loop does nothing,
  \<open>fetchFromMainMemory\<close> calls \<open>put\<close>, and \<open>put\<close> calls a method of
  \<open>this.cacheLevels[0]\<close>, which is \<open>undefined\<close>. The \<open>get\<close> is rejected with a
  \<open>TypeError\<close> for every key. On a chain with at least one level the fallback works
  (\<open>get_fallback_nonempty\<close>).
\<close>

theorem get_on_empty_chain_throws:
  "MultiLevelCache_get new_MultiLevelCache key = Threw TypeError new_MultiLevelCache"
  by (simp add: MultiLevelCache_get_def new_MultiLevelCache_def get_loop.simps
      fetchFromMainMemory_def MultiLevelCache_put_def Let_def)

subsection \<open>C7: the LRU order\<close>

text \<open>
  C7. A single LRU level of capacity 2: after \<open>put(a,1); put(b,2); get(a)\<close> the store holds
  \<open>b\<close> before \<open>a\<close>; the eviction run by \<open>put(c,3)\<close> on that store removes exactly the
  entry of \<open>b\<close>; and after the whole sequence the store holds \<open>a\<close> and \<open>c\<close> and nothing
  else.
\<close>

theorem LRU_order_scenario:
  "and_then (CacheLevel_put [new_CacheLevel 2 ''LRU''] 0 (Str ''a'') (Str ''1''))
     (\<lambda>h. and_then (CacheLevel_put h 0 (Str ''b'') (Str ''2''))
       (\<lambda>h. CacheLevel_get h 0 (Str ''a'')))
   = Returned (Str ''1'')
       [\<lparr>size_lv = 2, evictionPolicy = ''LRU'',
         cache = [(Str ''b'', Str ''2''), (Str ''a'', Str ''1'')],
         accessCount = [], mutex = False, lowerCache = None\<rparr>]
   \<and> fst (evict \<lparr>size_lv = 2, evictionPolicy = ''LRU'',
         cache = [(Str ''b'', Str ''2''), (Str ''a'', Str ''1'')],
         accessCount = [], mutex = True, lowerCache = None\<rparr>) = Some (Str ''b'', Str ''2'')
   \<and> and_then (CacheLevel_put [new_CacheLevel 2 ''LRU''] 0 (Str ''a'') (Str ''1''))
     (\<lambda>h. and_then (CacheLevel_put h 0 (Str ''b'') (Str ''2''))
       (\<lambda>h. and_then (CacheLevel_get h 0 (Str ''a''))
         (\<lambda>h. CacheLevel_put h 0 (Str ''c'') (Str ''3''))))
   = Returned Undefined
       [\<lparr>size_lv = 2, evictionPolicy = ''LRU'',
         cache = [(Str ''a'', Str ''1''), (Str ''c'', Str ''3'')],
         accessCount = [], mutex = False, lowerCache = None\<rparr>]"
  by code_simp

subsection \<open>C8: the LFU counters\<close>

text \<open>
  The scenario of C8 holds: after \<open>put(a,1); put(b,2); get(a); get(a)\<close> the counters
  are 2 for \<open>a\<close> and 0 for \<open>b\<close>, the eviction of \<open>put(c,3)\<close> removes exactly \<open>b\<close>, and
  \<open>a\<close> and \<open>c\<close> remain, \<open>c\<close> with counter 0.
\<close>

lemma LFU_order_scenario:
  "and_then (CacheLevel_put [new_CacheLevel 2 ''LFU''] 0 (Str ''a'') (Str ''1''))
     (\<lambda>h. and_then (CacheLevel_put h 0 (Str ''b'') (Str ''2''))
       (\<lambda>h. and_then (CacheLevel_get h 0 (Str ''a''))
         (\<lambda>h. CacheLevel_get h 0 (Str ''a''))))
   = Returned (Str ''1'')
       [\<lparr>size_lv = 2, evictionPolicy = ''LFU'',
         cache = [(Str ''a'', Str ''1''), (Str ''b'', Str ''2'')],
         accessCount = [(Str ''a'', 2), (Str ''b'', 0)], mutex = False, lowerCache = None\<rparr>]
   \<and> fst (evict \<lparr>size_lv = 2, evictionPolicy = ''LFU'',
         cache = [(Str ''a'', Str ''1''), (Str ''b'', Str ''2'')],
         accessCount = [(Str ''a'', 2), (Str ''b'', 0)], mutex = True, lowerCache = None\<rparr>)
       = Some (Str ''b'', Str ''2'')
   \<and> and_then (CacheLevel_put [new_CacheLevel 2 ''LFU''] 0 (Str ''a'') (Str ''1''))
     (\<lambda>h. and_then (CacheLevel_put h 0 (Str ''b'') (Str ''2''))
       (\<lambda>h. and_then (CacheLevel_get h 0 (Str ''a''))
         (\<lambda>h. and_then (CacheLevel_get h 0 (Str ''a''))
           (\<lambda>h. CacheLevel_put h 0 (Str ''c'') (Str ''3'')))))
   = Returned Undefined
       [\<lparr>size_lv = 2, evictionPolicy = ''LFU'',
         cache = [(Str ''a'', Str ''1''), (Str ''c'', Str ''3'')],
         accessCount = [(Str ''a'', 2), (Str ''c'', 0)], mutex = False, lowerCache = None\<rparr>]"
  by code_simp

text \<open>
  C8, evaluated on an LFU level of capacity 1: after \<open>put(a,1); get(a)\<close> the counter of
  \<open>a\<close> is 1, and the overwrite \<open>put(a,2)\<close> leaves it at 0. The level is at capacity, so
  \<open>put\<close> evicts before it looks whether the key is present; the victim is \<open>a\<close> itself,
  its counter is deleted, and the key is inserted as if it were new.
\<close>

theorem LFU_overwrite_resets_frequency:
  "and_then (CacheLevel_put [new_CacheLevel 1 ''LFU''] 0 (Str ''a'') (Str ''1''))
     (\<lambda>h. CacheLevel_get h 0 (Str ''a''))
   = Returned (Str ''1'')
       [\<lparr>size_lv = 1, evictionPolicy = ''LFU'', cache = [(Str ''a'', Str ''1'')],
         accessCount = [(Str ''a'', 1)], mutex = False, lowerCache = None\<rparr>]
   \<and> and_then (CacheLevel_put [new_CacheLevel 1 ''LFU''] 0 (Str ''a'') (Str ''1''))
     (\<lambda>h. and_then (CacheLevel_get h 0 (Str ''a''))
       (\<lambda>h. CacheLevel_put h 0 (Str ''a'') (Str ''2'')))
   = Returned Undefined
       [\<lparr>size_lv = 1, evictionPolicy = ''LFU'', cache = [(Str ''a'', Str ''2'')],
         accessCount = [(Str ''a'', 0)], mutex = False, lowerCache = None\<rparr>]"
  by code_simp

subsection \<open>C9: validation failures\<close>

text \<open>
  C9 fails on the code in one point: the error of \<open>removeCacheLevel\<close> is not
  reported synchronously. The method is declared \<open>async\<close>, so a call with a bad index
  throws nothing at the call; it returns a promise, and the error is the rejection of
  that promise. Here the index 0 on the chain without levels.
\<close>

theorem removeCacheLevel_rejects_counterexample:
  "call_removeCacheLevel new_MultiLevelCache 0
     = By_promise (Threw IndexOutOfRange new_MultiLevelCache)
   \<and> thrown_at_call (call_removeCacheLevel new_MultiLevelCache 0) = None
   \<and> rejection (call_removeCacheLevel new_MultiLevelCache 0) = Some IndexOutOfRange"
  by (simp add: call_removeCacheLevel_def removeCacheLevel_def new_MultiLevelCache_def)

text \<open>
  C9 as amended. \<open>addCacheLevel\<close> fails exactly when the policy is neither \<open>LRU\<close> nor
  \<open>LFU\<close>, and throws at the call; \<open>removeCacheLevel\<close> fails exactly when the index is
  outside \<open>0 \<le> index < length\<close>, and its error is the rejection of the promise it
  returns; in both failures the chain is the one before the call. \<open>get\<close> and \<open>put\<close>
  never raise one of these two errors; on a well-formed chain with at least one level
  they raise no error at all, and neither do \<open>get\<close> and \<open>put\<close> of a level of a
  well-formed store.
\<close>

theorem validation_failures:
  "(raised (addCacheLevel st sz pol) \<noteq> None \<longleftrightarrow> pol \<noteq> ''LRU'' \<and> pol \<noteq> ''LFU'') \<and>
   (pol \<noteq> ''LRU'' \<and> pol \<noteq> ''LFU'' \<longrightarrow>
      call_addCacheLevel st sz pol = At_call (Threw InvalidPolicy st)) \<and>
   (raised (removeCacheLevel st level) \<noteq> None \<longleftrightarrow>
      \<not> (0 \<le> level \<and> level < int (length (cacheLevels st)))) \<and>
   (\<not> (0 \<le> level \<and> level < int (length (cacheLevels st))) \<longrightarrow>
      call_removeCacheLevel st level = By_promise (Threw IndexOutOfRange st)) \<and>
   raised (MultiLevelCache_get st key) \<noteq> Some InvalidPolicy \<and>
   raised (MultiLevelCache_get st key) \<noteq> Some IndexOutOfRange \<and>
   raised (MultiLevelCache_put st key val) \<noteq> Some InvalidPolicy \<and>
   raised (MultiLevelCache_put st key val) \<noteq> Some IndexOutOfRange \<and>
   (wf_chain st \<and> cacheLevels st \<noteq> [] \<longrightarrow>
      raised (MultiLevelCache_get st key) = None \<and>
      raised (MultiLevelCache_put st key val) = None) \<and>
   (wf_store h \<and> a < length h \<longrightarrow>
      raised (CacheLevel_get h a key) = None \<and>
      raised (CacheLevel_put h a key val) = None)"
proof -
  have g: "raised (MultiLevelCache_get st key) \<noteq> Some InvalidPolicy \<and>
      raised (MultiLevelCache_get st key) \<noteq> Some IndexOutOfRange"
    by (cases "MultiLevelCache_get st key") (auto dest: chain_get_throws)
  have p: "raised (MultiLevelCache_put st key val) \<noteq> Some InvalidPolicy \<and>
      raised (MultiLevelCache_put st key val) \<noteq> Some IndexOutOfRange"
    by (cases "MultiLevelCache_put st key val") (auto dest: chain_put_throws)
  have add: "(raised (addCacheLevel st sz pol) \<noteq> None \<longleftrightarrow> pol \<noteq> ''LRU'' \<and> pol \<noteq> ''LFU'') \<and>
   (pol \<noteq> ''LRU'' \<and> pol \<noteq> ''LFU'' \<longrightarrow>
      call_addCacheLevel st sz pol = At_call (Threw InvalidPolicy st))"
    by (simp add: call_addCacheLevel_def addCacheLevel_def Let_def)
  have rem: "(raised (removeCacheLevel st level) \<noteq> None \<longleftrightarrow>
      \<not> (0 \<le> level \<and> level < int (length (cacheLevels st)))) \<and>
   (\<not> (0 \<le> level \<and> level < int (length (cacheLevels st))) \<longrightarrow>
      call_removeCacheLevel st level = By_promise (Threw IndexOutOfRange st))"
    by (simp add: call_removeCacheLevel_def removeCacheLevel_def Let_def)
  have chain: "raised (MultiLevelCache_get st key) = None \<and>
      raised (MultiLevelCache_put st key val) = None"
    if "wf_chain st \<and> cacheLevels st \<noteq> []"
    using that by (simp add: chain_get_no_throw chain_put_no_throw)
  have lev: "raised (CacheLevel_get h a key) = None \<and>
      raised (CacheLevel_put h a key val) = None"
    if "wf_store h \<and> a < length h"
    using that by (simp add: get_no_throw put_no_throw)
  show ?thesis
    using add rem g p chain lev by blast
qed

text \<open>The theorem at an unknown policy, at index 0 of the chain without levels, and at a
  chain of one LRU level.\<close>

theorem validation_failures_witness:
  "call_addCacheLevel new_MultiLevelCache 4 ''FIFO''
     = At_call (Threw InvalidPolicy new_MultiLevelCache) \<and>
   call_removeCacheLevel new_MultiLevelCache 0
     = By_promise (Threw IndexOutOfRange new_MultiLevelCache) \<and>
   raised (addCacheLevel new_MultiLevelCache 4 ''LFU'') = None \<and>
   raised (MultiLevelCache_get
     \<lparr>objects = [new_CacheLevel 1 ''LRU''], cacheLevels = [0]\<rparr> (Str ''k'')) = None \<and>
   raised (MultiLevelCache_put
     \<lparr>objects = [new_CacheLevel 1 ''LRU''], cacheLevels = [0]\<rparr> (Str ''k'') (Str ''v'')) = None \<and>
   raised (CacheLevel_get [new_CacheLevel 1 ''LRU''] 0 (Str ''k'')) = None \<and>
   raised (CacheLevel_put [new_CacheLevel 1 ''LRU''] 0 (Str ''k'') (Str ''v'')) = None"
proof -
  let ?h = "[new_CacheLevel 1 ''LRU'']"
  let ?st = "\<lparr>objects = ?h, cacheLevels = [0]\<rparr>"
  have q: "cacheLevels new_MultiLevelCache = []"
    by (simp add: new_MultiLevelCache_def)
  have wf: "wf_chain ?st \<and> cacheLevels ?st \<noteq> []"
    by (simp add: wf_chain_def wf_store_def new_CacheLevel_def)
  have wfh: "wf_store ?h \<and> 0 < length ?h"
    by (simp add: wf_store_def new_CacheLevel_def)
  from validation_failures [of new_MultiLevelCache 4 "''FIFO''" 0]
  have "call_addCacheLevel new_MultiLevelCache 4 ''FIFO''
     = At_call (Threw InvalidPolicy new_MultiLevelCache)"
    and "call_removeCacheLevel new_MultiLevelCache 0
     = By_promise (Threw IndexOutOfRange new_MultiLevelCache)"
    by (simp_all add: q)
  moreover from validation_failures [of new_MultiLevelCache 4 "''LFU''" 0]
  have "raised (addCacheLevel new_MultiLevelCache 4 ''LFU'') = None" by simp
  moreover from validation_failures [of ?st 4 "''LFU''" 0 "Str ''k''" "Str ''v''" ?h 0] wf wfh
  have "raised (MultiLevelCache_get ?st (Str ''k'')) = None"
    and "raised (MultiLevelCache_put ?st (Str ''k'') (Str ''v'')) = None"
    and "raised (CacheLevel_get ?h 0 (Str ''k'')) = None"
    and "raised (CacheLevel_put ?h 0 (Str ''k'') (Str ''v'')) = None"
    by simp_all
  ultimately show ?thesis by simp
qed

subsection \<open>C10: the capacity argument\<close>

text \<open>
  C10. With a valid policy \<open>addCacheLevel\<close> succeeds for every integer size, negative
  and zero included, and appends an empty level of that size. A \<open>put\<close> on a level
  of capacity zero or less (its mutex and those of the objects after it free) stores the
  entry, and afterwards the store is larger than the capacity.
\<close>

theorem capacity_not_validated:
  "(pol = ''LRU'' \<or> pol = ''LFU'' \<longrightarrow>
      (\<exists>st'. addCacheLevel st sz pol = Returned Undefined st' \<and>
         cacheLevels st' = cacheLevels st @ [length (objects st)] \<and>
         length (objects st') = Suc (length (objects st)) \<and>
         size_lv (objects st' ! length (objects st)) = sz \<and>
         cache (objects st' ! length (objects st)) = [])) \<and>
   (wf_store h \<and> a < length h \<and> (\<forall>i. a \<le> i \<and> i < length h \<longrightarrow> \<not> mutex (h ! i)) \<and>
    size_lv (h ! a) \<le> 0 \<longrightarrow>
      (\<exists>h'. CacheLevel_put h a k v = Returned Undefined h' \<and>
         Map_lookup k (cache (h' ! a)) = Some v \<and>
         size_lv (h' ! a) = size_lv (h ! a) \<and>
         size_lv (h' ! a) < int (length (cache (h' ! a)))))"
proof (intro conjI impI)
  assume pol: "pol = ''LRU'' \<or> pol = ''LFU''"
  let ?n = "length (objects st)"
  let ?h1 = "objects st @ [new_CacheLevel sz pol]"
  have n: "size_lv (setLowerCache ?h1 b l ! ?n) = sz \<and> cache (setLowerCache ?h1 b l ! ?n) = []
      \<and> length (setLowerCache ?h1 b l) = Suc ?n" for b l
    by (cases "b = ?n") (simp_all add: setLowerCache_def new_CacheLevel_def)
  have n': "size_lv (?h1 ! ?n) = sz \<and> cache (?h1 ! ?n) = []"
    by (simp add: new_CacheLevel_def)
  show "\<exists>st'. addCacheLevel st sz pol = Returned Undefined st' \<and>
         cacheLevels st' = cacheLevels st @ [length (objects st)] \<and>
         length (objects st') = Suc (length (objects st)) \<and>
         size_lv (objects st' ! length (objects st)) = sz \<and>
         cache (objects st' ! length (objects st)) = []"
    using pol n n' by (auto simp: addCacheLevel_def Let_def)
next
  assume hyp: "wf_store h \<and> a < length h \<and> (\<forall>i. a \<le> i \<and> i < length h \<longrightarrow> \<not> mutex (h ! i)) \<and>
    size_lv (h ! a) \<le> 0"
  then obtain h' where r: "CacheLevel_put h a k v = Returned Undefined h'"
    and ha: "h' ! a = store_entry (make_room (h ! a)) k v"
    using put_effect [of h a k v] by blast
  have "0 < int (length (cache (h' ! a)))"
    by (simp add: ha)
  moreover have "size_lv (h' ! a) = size_lv (h ! a)"
    by (simp add: ha)
  moreover have "Map_lookup k (cache (h' ! a)) = Some v"
    by (simp add: ha)
  moreover have "size_lv (h ! a) \<le> 0" using hyp by simp
  ultimately have "Map_lookup k (cache (h' ! a)) = Some v \<and>
         size_lv (h' ! a) = size_lv (h ! a) \<and>
         size_lv (h' ! a) < int (length (cache (h' ! a)))"
    by linarith
  with r show "\<exists>h'. CacheLevel_put h a k v = Returned Undefined h' \<and>
         Map_lookup k (cache (h' ! a)) = Some v \<and>
         size_lv (h' ! a) = size_lv (h ! a) \<and>
         size_lv (h' ! a) < int (length (cache (h' ! a)))"
    by blast
qed

theorem capacity_not_validated_witness:
  "(\<exists>st'. addCacheLevel new_MultiLevelCache (- 3) ''LFU'' = Returned Undefined st' \<and>
         cacheLevels st' = [0] \<and> size_lv (objects st' ! 0) = - 3) \<and>
   (\<exists>h'. CacheLevel_put [new_CacheLevel 0 ''LRU''] 0 (Str ''a'') (Str ''1'') = Returned Undefined h' \<and>
         Map_lookup (Str ''a'') (cache (h' ! 0)) = Some (Str ''1'') \<and>
         size_lv (h' ! 0) = 0 \<and> 0 < int (length (cache (h' ! 0))))"
proof -
  have p: "''LFU'' = ''LRU'' \<or> ''LFU'' = ''LFU''" by simp
  have q: "wf_store [new_CacheLevel 0 ''LRU''] \<and> 0 < length [new_CacheLevel 0 ''LRU''] \<and>
      (\<forall>i. 0 \<le> i \<and> i < length [new_CacheLevel 0 ''LRU''] \<longrightarrow> \<not> mutex ([new_CacheLevel 0 ''LRU''] ! i)) \<and>
      size_lv ([new_CacheLevel 0 ''LRU''] ! 0) \<le> 0"
    by (simp add: wf_store_def new_CacheLevel_def)
  from capacity_not_validated [of "''LFU''" new_MultiLevelCache "- 3"
      "[new_CacheLevel 0 ''LRU'']" 0 "Str ''a''" "Str ''1''"] p q
  have "\<exists>st'. addCacheLevel new_MultiLevelCache (- 3) ''LFU'' = Returned Undefined st' \<and>
         cacheLevels st' = cacheLevels new_MultiLevelCache @ [length (objects new_MultiLevelCache)] \<and>
         length (objects st') = Suc (length (objects new_MultiLevelCache)) \<and>
         size_lv (objects st' ! length (objects new_MultiLevelCache)) = - 3 \<and>
         cache (objects st' ! length (objects new_MultiLevelCache)) = []"
    and "\<exists>h'. CacheLevel_put [new_CacheLevel 0 ''LRU''] 0 (Str ''a'') (Str ''1'') = Returned Undefined h' \<and>
         Map_lookup (Str ''a'') (cache (h' ! 0)) = Some (Str ''1'') \<and>
         size_lv (h' ! 0) = size_lv ([new_CacheLevel 0 ''LRU''] ! 0) \<and>
         size_lv (h' ! 0) < int (length (cache (h' ! 0)))"
    by blast+
  then show ?thesis
    by (auto simp: new_MultiLevelCache_def new_CacheLevel_def)
qed

end
